theory Spec2Isabelle
  imports Complex_Main "HOL-Library.Word" "HOL-Library.Sublist" "HOL-Library.Multiset"
begin

unbundle bit_operations_syntax

section \<open>The MIDI file parser (src/js/midi.js, class MIDIParser)\<close>

subsection \<open>The DataView\<close>

text \<open>
  A \<open>DataView\<close> over an \<open>ArrayBuffer\<close> is the list of its bytes. Every read checks its
  index: a read that does not lie inside the buffer throws a \<open>RangeError\<close>. Multi-byte reads
  are big-endian (the default of \<open>getUint16\<close> and \<open>getUint32\<close>). Offsets are integers, since
  the parser can compute a negative one.
\<close>

datatype error = InvalidMThd | InvalidMTrk | RangeError | TypeError

type_synonym view = "8 word list"

definition bindE :: "error + 'a \<Rightarrow> ('a \<Rightarrow> error + 'b) \<Rightarrow> error + 'b" where
  "bindE m f = (case m of Inl e \<Rightarrow> Inl e | Inr x \<Rightarrow> f x)"

definition getUint8 :: "view \<Rightarrow> int \<Rightarrow> error + nat" where
  "getUint8 v off =
     (if 0 \<le> off \<and> off + 1 \<le> int (length v) then Inr (unat (v ! nat off))
      else Inl RangeError)"

definition getUint16 :: "view \<Rightarrow> int \<Rightarrow> error + nat" where
  "getUint16 v off =
     (if 0 \<le> off \<and> off + 2 \<le> int (length v)
      then Inr (unat (v ! nat off) * 256 + unat (v ! (nat off + 1)))
      else Inl RangeError)"

definition getUint32 :: "view \<Rightarrow> int \<Rightarrow> error + nat" where
  "getUint32 v off =
     (if 0 \<le> off \<and> off + 4 \<le> int (length v)
      then Inr (unat (v ! nat off) * 16777216 + unat (v ! (nat off + 1)) * 65536
                + unat (v ! (nat off + 2)) * 256 + unat (v ! (nat off + 3)))
      else Inl RangeError)"

subsection \<open>readVariableLength\<close>

text \<open>
  The accumulator \<open>value\<close> of the source goes through \<open>(value << 7) | (byte & 0x7F)\<close> in
  every round. JavaScript's \<open><<\<close> and \<open>|\<close> work on 32-bit integers and return a signed
  32-bit integer, so the accumulator is a \<open>32 word\<close> and the returned number is its signed
  reading. The \<open>do ... while (byte & 0x80)\<close> loop reads one byte per round and ends at the
  first byte whose high bit is clear, or with the \<open>RangeError\<close> of a read past the buffer.
\<close>

record vlq =
  vl_value :: int
  vl_bytesRead :: int

function readVariableLength_loop :: "view \<Rightarrow> int \<Rightarrow> 32 word \<Rightarrow> int \<Rightarrow> error + vlq" where
  "readVariableLength_loop v off val bytesRead =
     (case getUint8 v (off + bytesRead) of
        Inl e \<Rightarrow> Inl e
      | Inr byte \<Rightarrow>
          (let val' = push_bit 7 val OR word_of_nat (byte AND 0x7F);
               bytesRead' = bytesRead + 1
           in if byte AND 0x80 \<noteq> 0
              then readVariableLength_loop v off val' bytesRead'
              else Inr \<lparr>vl_value = sint val', vl_bytesRead = bytesRead'\<rparr>))"
  by pat_completeness auto
termination
  by (relation "measure (\<lambda>(v, off, val, bytesRead). nat (int (length v) - (off + bytesRead)))")
     (auto simp: getUint8_def split: if_splits)

declare readVariableLength_loop.simps [simp del]

definition readVariableLength :: "view \<Rightarrow> int \<Rightarrow> error + vlq" where
  "readVariableLength v off = readVariableLength_loop v off 0 0"

subsection \<open>Numbers that need not be finite\<close>

text \<open>
  The timestamps of \<open>processEvents\<close> are JavaScript numbers computed with a division by
  \<open>ticksPerQuarter\<close>, which the header may give as 0. A number is therefore a rational, one
  of the two infinities, or \<open>NaN\<close>; finite arithmetic is exact (rounding is not modelled) and
  the two zeros are one. Every divisor of this program is non-negative (an unsigned header
  field, the constant 1000000), so a zero divisor is \<open>+0\<close>. An absent property reads as
  \<open>undefined\<close>, which arithmetic turns into \<open>NaN\<close>.
\<close>

datatype jsnum = Fin rat | PosInf | NegInf | NaN

fun js_div :: "jsnum \<Rightarrow> jsnum \<Rightarrow> jsnum" where
  "js_div (Fin a) (Fin b) =
     (if b \<noteq> 0 then Fin (a / b)
      else if a = 0 then NaN else if 0 < a then PosInf else NegInf)"
| "js_div (Fin a) PosInf = Fin 0"
| "js_div (Fin a) NegInf = Fin 0"
| "js_div PosInf (Fin b) = (if 0 \<le> b then PosInf else NegInf)"
| "js_div NegInf (Fin b) = (if 0 \<le> b then NegInf else PosInf)"
| "js_div _ _ = NaN"

fun js_mul :: "jsnum \<Rightarrow> jsnum \<Rightarrow> jsnum" where
  "js_mul (Fin a) (Fin b) = Fin (a * b)"
| "js_mul NaN _ = NaN"
| "js_mul _ NaN = NaN"
| "js_mul PosInf (Fin b) = (if b = 0 then NaN else if 0 < b then PosInf else NegInf)"
| "js_mul NegInf (Fin b) = (if b = 0 then NaN else if 0 < b then NegInf else PosInf)"
| "js_mul (Fin a) PosInf = (if a = 0 then NaN else if 0 < a then PosInf else NegInf)"
| "js_mul (Fin a) NegInf = (if a = 0 then NaN else if 0 < a then NegInf else PosInf)"
| "js_mul PosInf PosInf = PosInf"
| "js_mul NegInf NegInf = PosInf"
| "js_mul PosInf NegInf = NegInf"
| "js_mul NegInf PosInf = NegInf"

fun js_add :: "jsnum \<Rightarrow> jsnum \<Rightarrow> jsnum" where
  "js_add (Fin a) (Fin b) = Fin (a + b)"
| "js_add NaN _ = NaN"
| "js_add _ NaN = NaN"
| "js_add PosInf NegInf = NaN"
| "js_add NegInf PosInf = NaN"
| "js_add PosInf _ = PosInf"
| "js_add _ PosInf = PosInf"
| "js_add NegInf _ = NegInf"
| "js_add _ NegInf = NegInf"

text \<open>\<open>a <= b\<close> on numbers: false as soon as one side is \<open>NaN\<close>.\<close>

fun js_le :: "jsnum \<Rightarrow> jsnum \<Rightarrow> bool" where
  "js_le (Fin a) (Fin b) = (a \<le> b)"
| "js_le NaN _ = False"
| "js_le _ NaN = False"
| "js_le NegInf _ = True"
| "js_le _ PosInf = True"
| "js_le _ _ = False"

text \<open>An optional numeric property used in arithmetic.\<close>

definition js_number :: "nat option \<Rightarrow> jsnum" where
  "js_number x = (case x of None \<Rightarrow> NaN | Some n \<Rightarrow> Fin (of_nat n))"

subsection \<open>Events\<close>

text \<open>
  An event is a JavaScript object: \<open>time\<close> and \<open>bytesRead\<close> are always set by
  \<open>parseEvent\<close>, every other property only by some branches, so it is optional here.
  \<open>track\<close> and \<open>seconds\<close> are added by \<open>processEvents\<close>.
\<close>

datatype etype = NoteOff | NoteOn | ControlChange | Tempo | TimeSignature | EndOfTrack
  | Meta | Sysex | Unknown

record event =
  ev_time :: int
  ev_type :: "etype option"
  ev_channel :: "nat option"
  ev_note :: "nat option"
  ev_velocity :: "nat option"
  ev_status :: "nat option"
  ev_controller :: "nat option"
  ev_value :: "nat option"
  ev_tempo :: "nat option"
  ev_numerator :: "nat option"
  ev_denominator :: "nat option"
  ev_metaType :: "nat option"
  ev_bytesRead :: int
  ev_track :: "nat option"
  ev_seconds :: "jsnum option"

text \<open>The object \<open>{ time }\<close> that \<open>parseEvent\<close> starts from.\<close>

definition new_event :: "int \<Rightarrow> event" where
  "new_event t =
     \<lparr>ev_time = t, ev_type = None, ev_channel = None, ev_note = None, ev_velocity = None,
      ev_status = None, ev_controller = None, ev_value = None, ev_tempo = None,
      ev_numerator = None, ev_denominator = None, ev_metaType = None, ev_bytesRead = 0,
      ev_track = None, ev_seconds = None\<rparr>"

subsection \<open>parseEvent\<close>

text \<open>
  \<open>status\<close> is the byte read at \<open>offset\<close>, or the caller's \<open>runningStatus\<close> when that byte
  is below 0x80. The running status is a number or \<open>undefined\<close> (\<open>None\<close>) and the bitwise
  operators read \<open>undefined\<close> as 0.
\<close>

definition js_int32 :: "nat option \<Rightarrow> nat" where
  "js_int32 x = (case x of None \<Rightarrow> 0 | Some n \<Rightarrow> n)"

text \<open>The branch \<open>status === 0xFF\<close> of \<open>case 15\<close>: a meta event.\<close>

definition parseMeta :: "view \<Rightarrow> int \<Rightarrow> int \<Rightarrow> event \<Rightarrow> error + event" where
  "parseMeta v off bytesRead ev =
     bindE (getUint8 v (off + bytesRead)) (\<lambda>metaType.
     let bytesRead1 = bytesRead + 1 in
     bindE (readVariableLength v (off + bytesRead1)) (\<lambda>len.
     let bytesRead2 = bytesRead1 + vl_bytesRead len in
     bindE
       (if metaType = 0x51 then
          (if vl_value len = 3 then
             bindE (getUint8 v (off + bytesRead2)) (\<lambda>b0.
             bindE (getUint8 v (off + bytesRead2 + 1)) (\<lambda>b1.
             bindE (getUint8 v (off + bytesRead2 + 2)) (\<lambda>b2.
             Inr (ev\<lparr>ev_type := Some Tempo,
                      ev_tempo := Some (push_bit 16 b0 OR push_bit 8 b1 OR b2)\<rparr>))))
           else Inr ev)
        else if metaType = 0x58 then
          (if vl_value len = 4 then
             bindE (getUint8 v (off + bytesRead2)) (\<lambda>n.
             bindE (getUint8 v (off + bytesRead2 + 1)) (\<lambda>d.
             Inr (ev\<lparr>ev_type := Some TimeSignature, ev_numerator := Some n,
                      ev_denominator := Some (2 ^ d)\<rparr>)))
           else Inr ev)
        else if metaType = 0x2F then Inr (ev\<lparr>ev_type := Some EndOfTrack\<rparr>)
        else Inr (ev\<lparr>ev_type := Some Meta, ev_metaType := Some metaType\<rparr>))
       (\<lambda>ev'. Inr (ev'\<lparr>ev_bytesRead := bytesRead2 + vl_value len\<rparr>))))"

text \<open>The \<open>switch (messageType)\<close> with the final \<open>event.bytesRead = bytesRead\<close>.\<close>

definition parseMessage :: "view \<Rightarrow> int \<Rightarrow> nat option \<Rightarrow> int \<Rightarrow> event \<Rightarrow> error + event" where
  "parseMessage v off status bytesRead ev =
     (let channel = js_int32 status AND 0x0F;
          messageType = drop_bit 4 (js_int32 status AND 0xF0)
      in if messageType = 8 then
           bindE (getUint8 v (off + bytesRead)) (\<lambda>n.
           bindE (getUint8 v (off + bytesRead + 1)) (\<lambda>vel.
           Inr (ev\<lparr>ev_type := Some NoteOff, ev_channel := Some channel, ev_note := Some n,
                    ev_velocity := Some vel, ev_status := status,
                    ev_bytesRead := bytesRead + 2\<rparr>)))
         else if messageType = 9 then
           bindE (getUint8 v (off + bytesRead + 1)) (\<lambda>vel.
           bindE (getUint8 v (off + bytesRead)) (\<lambda>n.
           Inr (ev\<lparr>ev_type := Some (if vel = 0 then NoteOff else NoteOn),
                    ev_channel := Some channel, ev_note := Some n, ev_velocity := Some vel,
                    ev_status := status, ev_bytesRead := bytesRead + 2\<rparr>)))
         else if messageType = 11 then
           bindE (getUint8 v (off + bytesRead)) (\<lambda>c.
           bindE (getUint8 v (off + bytesRead + 1)) (\<lambda>x.
           Inr (ev\<lparr>ev_type := Some ControlChange, ev_channel := Some channel,
                    ev_controller := Some c, ev_value := Some x, ev_status := status,
                    ev_bytesRead := bytesRead + 2\<rparr>)))
         else if messageType = 15 then
           (if status = Some 0xFF then parseMeta v off bytesRead ev
            else Inr (ev\<lparr>ev_type := Some Sysex, ev_bytesRead := bytesRead + 1\<rparr>))
         else Inr (ev\<lparr>ev_type := Some Unknown, ev_bytesRead := bytesRead + 1\<rparr>))"

definition parseEvent :: "view \<Rightarrow> int \<Rightarrow> nat option \<Rightarrow> int \<Rightarrow> error + event" where
  "parseEvent v off runningStatus t =
     bindE (getUint8 v off) (\<lambda>status.
     if status < 0x80 then parseMessage v off runningStatus 0 (new_event t)
     else parseMessage v off (Some status) 1 (new_event t))"

subsection \<open>Chunks\<close>

text \<open>\<open>readString\<close>: one character per byte, \<open>String.fromCharCode\<close> of the byte read.\<close>

fun readString :: "view \<Rightarrow> int \<Rightarrow> nat \<Rightarrow> error + string" where
  "readString v off 0 = Inr []"
| "readString v off (Suc n) =
     bindE (getUint8 v off) (\<lambda>b.
     bindE (readString v (off + 1) n) (\<lambda>s. Inr (char_of b # s)))"

record header =
  h_length :: nat
  h_format :: nat
  h_trackCount :: nat
  h_ticksPerQuarter :: nat

definition parseHeaderChunk :: "view \<Rightarrow> int \<Rightarrow> error + header" where
  "parseHeaderChunk v off =
     bindE (readString v off 4) (\<lambda>signature.
     if signature \<noteq> ''MThd'' then Inl InvalidMThd
     else
       bindE (getUint32 v (off + 4)) (\<lambda>len.
       bindE (getUint16 v (off + 8)) (\<lambda>format.
       bindE (getUint16 v (off + 10)) (\<lambda>trackCount.
       bindE (getUint16 v (off + 12)) (\<lambda>ticksPerQuarter.
       Inr \<lparr>h_length = len, h_format = format, h_trackCount = trackCount,
            h_ticksPerQuarter = ticksPerQuarter\<rparr>)))))"

record track =
  tr_length :: nat
  tr_events :: "event list"

text \<open>
  The \<open>while (trackOffset < trackEnd)\<close> loop of \<open>parseTrackChunk\<close>. An event's \<open>bytesRead\<close>
  can be negative (a meta event whose length wrapped around), so the offset need not grow and
  the loop need not end: it runs on fuel, one unit per test of the loop condition, and \<open>None\<close>
  is "still running when the fuel is used up".
\<close>

fun parseTrack_loop ::
  "nat \<Rightarrow> view \<Rightarrow> int \<Rightarrow> int \<Rightarrow> nat option \<Rightarrow> int \<Rightarrow> event list \<Rightarrow> (error + event list) option"
where
  "parseTrack_loop 0 v trackEnd trackOffset runningStatus currentTime events = None"
| "parseTrack_loop (Suc fuel) v trackEnd trackOffset runningStatus currentTime events =
     (if trackOffset < trackEnd then
        (case readVariableLength v trackOffset of
           Inl e \<Rightarrow> Some (Inl e)
         | Inr deltaTime \<Rightarrow>
             (let trackOffset1 = trackOffset + vl_bytesRead deltaTime;
                  currentTime1 = currentTime + vl_value deltaTime
              in case parseEvent v trackOffset1 runningStatus currentTime1 of
                   Inl e \<Rightarrow> Some (Inl e)
                 | Inr event \<Rightarrow>
                     parseTrack_loop fuel v trackEnd (trackOffset1 + ev_bytesRead event)
                       (if ev_type event = Some NoteOn \<or> ev_type event = Some NoteOff
                           \<or> ev_type event = Some ControlChange
                        then ev_status event else runningStatus)
                       currentTime1 (events @ [event])))
      else Some (Inr events))"

definition parseTrackChunk :: "nat \<Rightarrow> view \<Rightarrow> int \<Rightarrow> (error + track) option" where
  "parseTrackChunk fuel v off =
     (case readString v off 4 of
        Inl e \<Rightarrow> Some (Inl e)
      | Inr signature \<Rightarrow>
          if signature \<noteq> ''MTrk'' then Some (Inl InvalidMTrk)
          else
            (case getUint32 v (off + 4) of
               Inl e \<Rightarrow> Some (Inl e)
             | Inr len \<Rightarrow>
                 (case parseTrack_loop fuel v (off + 8 + int len) (off + 8) (Some 0) 0 [] of
                    None \<Rightarrow> None
                  | Some (Inl e) \<Rightarrow> Some (Inl e)
                  | Some (Inr events) \<Rightarrow> Some (Inr \<lparr>tr_length = len, tr_events = events\<rparr>))))"

subsection \<open>processEvents\<close>

text \<open>
  The first loop tags every event with the index of its track and appends it to
  \<open>allEvents\<close>; \<open>Array.prototype.sort\<close> is stable and the comparator \<open>a.time - b.time\<close>
  orders by the integer tick time, so the sort is a stable sort on that key.
\<close>

fun mergeTracks :: "nat \<Rightarrow> track list \<Rightarrow> event list" where
  "mergeTracks trackIndex [] = []"
| "mergeTracks trackIndex (tr # trs) =
     map (\<lambda>event. event\<lparr>ev_track := Some trackIndex\<rparr>) (tr_events tr)
     @ mergeTracks (Suc trackIndex) trs"

text \<open>The second loop, with its three variables.\<close>

fun assignSeconds :: "nat \<Rightarrow> jsnum \<Rightarrow> jsnum \<Rightarrow> int \<Rightarrow> event list \<Rightarrow> event list" where
  "assignSeconds tpq currentTempo currentTime lastTickTime [] = []"
| "assignSeconds tpq currentTempo currentTime lastTickTime (event # rest) =
     (let currentTempo1 =
            (if ev_type event = Some Tempo then js_number (ev_tempo event) else currentTempo);
          tickDelta = ev_time event - lastTickTime;
          quartersElapsed = js_div (Fin (of_int tickDelta)) (Fin (of_nat tpq));
          secondsDelta = js_mul quartersElapsed (js_div currentTempo1 (Fin 1000000));
          currentTime1 = js_add currentTime secondsDelta
      in event\<lparr>ev_seconds := Some currentTime1\<rparr>
         # assignSeconds tpq currentTempo1 currentTime1 (ev_time event) rest)"

text \<open>\<open>this.tempo\<close> is set by the constructor to 500000 and never written again.\<close>

definition processEvents :: "nat \<Rightarrow> track list \<Rightarrow> event list" where
  "processEvents ticksPerQuarter tracks =
     assignSeconds ticksPerQuarter (Fin 500000) (Fin 0) 0
       (sort_key ev_time (mergeTracks 0 tracks))"

subsection \<open>parse\<close>

text \<open>The \<open>for (i < trackCount)\<close> loop: the number of rounds left, the offset, the tracks.\<close>

fun parseTracks :: "nat \<Rightarrow> view \<Rightarrow> int \<Rightarrow> nat \<Rightarrow> track list \<Rightarrow> (error + track list) option" where
  "parseTracks fuel v off 0 tracks = Some (Inr tracks)"
| "parseTracks fuel v off (Suc n) tracks =
     (case parseTrackChunk fuel v off of
        None \<Rightarrow> None
      | Some (Inl e) \<Rightarrow> Some (Inl e)
      | Some (Inr tr) \<Rightarrow> parseTracks fuel v (off + int (tr_length tr) + 8) n (tracks @ [tr]))"

definition parse :: "nat \<Rightarrow> view \<Rightarrow> (error + event list) option" where
  "parse fuel v =
     (case parseHeaderChunk v 0 of
        Inl e \<Rightarrow> Some (Inl e)
      | Inr h \<Rightarrow>
          (case parseTracks fuel v (int (h_length h) + 8) (h_trackCount h) [] of
             None \<Rightarrow> None
           | Some (Inl e) \<Rightarrow> Some (Inl e)
           | Some (Inr tracks) \<Rightarrow> Some (Inr (processEvents (h_ticksPerQuarter h) tracks))))"

subsection \<open>Variable-length quantities, as the format describes them\<close>

text \<open>
  These three definitions are not taken from the code. They say what a variable-length
  quantity is: the bytes up to and including the first one whose high bit (0x80) is clear,
  combined big-endian in base 128 from the 7 low bits of each. \<open>toInt32\<close> is the reading of
  an integer as a signed 32-bit number (ECMAScript's ToInt32).
\<close>

definition toInt32 :: "int \<Rightarrow> int" where
  "toInt32 n = (n + 2 ^ 31) mod 2 ^ 32 - 2 ^ 31"

definition base128_step :: "nat \<Rightarrow> nat \<Rightarrow> nat" where
  "base128_step acc b = acc * 128 + (b AND 0x7F)"

definition base128 :: "nat list \<Rightarrow> nat" where
  "base128 bs = foldl base128_step 0 bs"

fun vlq_bytes :: "nat list \<Rightarrow> nat list option" where
  "vlq_bytes [] = None"
| "vlq_bytes (b # bs) =
     (if b AND 0x80 = 0 then Some [b] else map_option ((#) b) (vlq_bytes bs))"

subsection \<open>The running status of a track, in closed form\<close>

text \<open>
  The definitions of this subsection are not taken from the code; they say what decoding
  with a running status means. The statuses that \<open>parseEvent\<close> decodes into note and
  controller events have the high nibble 8, 9 or 11, and \<open>channel_event t s d1 d2 k\<close> is the
  event that such a status \<open>s\<close> stands for with the data bytes \<open>d1\<close> and \<open>d2\<close>, at time \<open>t\<close>,
  with \<open>k\<close> bytes consumed.
\<close>

definition channel_status :: "nat \<Rightarrow> bool" where
  "channel_status s \<longleftrightarrow> drop_bit 4 (s AND 0xF0) \<in> {8, 9, 11}"

definition channel_event :: "int \<Rightarrow> nat \<Rightarrow> nat \<Rightarrow> nat \<Rightarrow> int \<Rightarrow> event" where
  "channel_event t s d1 d2 k =
     (if drop_bit 4 (s AND 0xF0) = 11 then
        (new_event t)\<lparr>ev_type := Some ControlChange, ev_channel := Some (s AND 0x0F),
                       ev_controller := Some d1, ev_value := Some d2, ev_status := Some s,
                       ev_bytesRead := k\<rparr>
      else
        (new_event t)\<lparr>ev_type := Some (if drop_bit 4 (s AND 0xF0) = 9 \<and> d2 \<noteq> 0 then NoteOn
                                         else NoteOff),
                       ev_channel := Some (s AND 0x0F), ev_note := Some d1,
                       ev_velocity := Some d2, ev_status := Some s, ev_bytesRead := k\<rparr>)"

text \<open>
  The running status in force after the events \<open>evs\<close> of a track have been read: the status
  of the last of them that is a noteOn, noteOff or controlChange event, and 0 when there is
  none.
\<close>

definition sets_running_status :: "event \<Rightarrow> bool" where
  "sets_running_status e \<longleftrightarrow>
     ev_type e = Some NoteOn \<or> ev_type e = Some NoteOff \<or> ev_type e = Some ControlChange"

definition running_status_after :: "event list \<Rightarrow> nat option" where
  "running_status_after evs =
     (if filter sets_running_status evs = [] then Some 0
      else ev_status (last (filter sets_running_status evs)))"

text \<open>
  The tick time reached after the events \<open>evs\<close>, and the offset reached after them when the
  first delta time starts at \<open>start\<close>: every event takes the bytes of its delta time and its
  own \<open>bytesRead\<close>.
\<close>

definition time_after :: "event list \<Rightarrow> int" where
  "time_after evs = (if evs = [] then 0 else ev_time (last evs))"

definition delta_bytes :: "view \<Rightarrow> int \<Rightarrow> int" where
  "delta_bytes v off =
     (case readVariableLength v off of Inl e \<Rightarrow> 0 | Inr dt \<Rightarrow> vl_bytesRead dt)"

definition offset_after :: "view \<Rightarrow> int \<Rightarrow> event list \<Rightarrow> int" where
  "offset_after v start evs =
     foldl (\<lambda>off e. off + delta_bytes v off + ev_bytesRead e) start evs"

text \<open>
  \<open>decoded_at v start trackEnd evs i\<close>: the event \<open>evs ! i\<close> is what \<open>parseEvent\<close> returns
  behind the delta time that follows the first \<open>i\<close> events, under the running status in force
  after them. \<open>decoded_track\<close>: every event of the list is, and the list ends where the track
  does.
\<close>

definition decoded_at :: "view \<Rightarrow> int \<Rightarrow> int \<Rightarrow> event list \<Rightarrow> nat \<Rightarrow> bool" where
  "decoded_at v start trackEnd evs i =
     (let off = offset_after v start (take i evs) in
      off < trackEnd \<and>
      (case readVariableLength v off of
         Inl e \<Rightarrow> False
       | Inr dt \<Rightarrow>
           parseEvent v (off + vl_bytesRead dt) (running_status_after (take i evs))
             (time_after (take i evs) + vl_value dt) = Inr (evs ! i)))"

definition decoded_track :: "view \<Rightarrow> int \<Rightarrow> int \<Rightarrow> event list \<Rightarrow> bool" where
  "decoded_track v start trackEnd evs \<longleftrightarrow>
     (\<forall>i<length evs. decoded_at v start trackEnd evs i)
     \<and> trackEnd \<le> offset_after v start evs"

subsection \<open>Reading a chunk by hand\<close>

text \<open>
  For stating what the chunk parsers return, not taken from the code: the four characters
  at a position of the buffer, and the byte at a position as a number.
\<close>

definition signature_at :: "view \<Rightarrow> int \<Rightarrow> string" where
  "signature_at v off = map (\<lambda>w. char_of (unat w)) (take 4 (drop (nat off) v))"

definition byte_at :: "view \<Rightarrow> int \<Rightarrow> nat" where
  "byte_at v i = unat (v ! nat i)"

subsection \<open>Timestamps, as the format describes them\<close>

text \<open>
  For stating what \<open>processEvents\<close> returns, not taken from the code. \<open>parsed_event\<close> holds
  of the events \<open>parseEvent\<close> builds: a tempo event carries its tempo, and no event has a
  track or a timestamp yet. \<open>untagged\<close> removes the track and the timestamp again.
  \<open>tempo_after c es\<close> is the tempo in force after the events \<open>es\<close>, starting from \<open>c\<close>.
  \<open>nondecreasing\<close> compares each timestamp with the next one by JavaScript's \<open><=\<close>, an
  absent timestamp comparing false. \<open>seconds_from\<close> is the accumulation of the timestamps in
  exact arithmetic, for a divisor that is not zero.
\<close>

definition parsed_event :: "event \<Rightarrow> bool" where
  "parsed_event e \<longleftrightarrow>
     (ev_type e = Some Tempo \<longrightarrow> ev_tempo e \<noteq> None) \<and> ev_track e = None \<and> ev_seconds e = None"

definition untagged :: "event \<Rightarrow> event" where
  "untagged e = e\<lparr>ev_track := None, ev_seconds := None\<rparr>"

fun tempo_after :: "rat \<Rightarrow> event list \<Rightarrow> rat" where
  "tempo_after c [] = c"
| "tempo_after c (e # es) =
     tempo_after (if ev_type e = Some Tempo
                  then (case ev_tempo e of Some n \<Rightarrow> of_nat n | None \<Rightarrow> c) else c) es"

fun seconds_le :: "jsnum option \<Rightarrow> jsnum option \<Rightarrow> bool" where
  "seconds_le (Some a) (Some b) = js_le a b"
| "seconds_le _ _ = False"

fun nondecreasing :: "jsnum option list \<Rightarrow> bool" where
  "nondecreasing (a # b # rest) = (seconds_le a b \<and> nondecreasing (b # rest))"
| "nondecreasing _ = True"

fun seconds_from :: "nat \<Rightarrow> rat \<Rightarrow> rat \<Rightarrow> int \<Rightarrow> event list \<Rightarrow> rat list" where
  "seconds_from tpq c ct lastTick [] = []"
| "seconds_from tpq c ct lastTick (e # es) =
     (let c1 = (if ev_type e = Some Tempo
                then (case ev_tempo e of Some n \<Rightarrow> of_nat n | None \<Rightarrow> c) else c);
          ct1 = ct + (of_int (ev_time e - lastTick) / of_nat tpq) * (c1 / 1000000)
      in ct1 # seconds_from tpq c1 ct1 (ev_time e) es)"

section \<open>The virtual keyboard (src/js/keyboard.js, class VirtualKeyboard)\<close>

text \<open>
  The state of the keyboard that the key handlers read and write: the current octave, the
  sustain toggle, the array \<open>keyStates\<close> (index 0 is MIDI note 12) and the set
  \<open>physicallyPressed\<close>. An element of that set is the string \<open>`${note}${octave}`\<close>, kept here
  as the pair of the note name and the octave number it is built from. The DOM classes and
  the redraw of the curves (\<open>updateVisualization\<close>) are not part of this state.
\<close>

record keyboard =
  currentOctave :: int
  sustainMode :: bool
  keyStates :: "bool list"
  physicallyPressed :: "(string \<times> int) set"

text \<open>The constructor: octave 4, sustain off, 114 entries \<open>false\<close>, nothing pressed.\<close>

definition new_keyboard :: keyboard where
  "new_keyboard =
     \<lparr>currentOctave = 4, sustainMode = False, keyStates = replicate 114 False,
      physicallyPressed = {}\<rparr>"

text \<open>The table \<open>noteToMidi\<close>, with its own keys.\<close>

definition noteToMidi :: "string \<Rightarrow> nat list option" where
  "noteToMidi note =
     map_of
       [(''C'', [12, 24, 36, 48, 60, 72, 84, 96, 108, 120]),
        (''C#'', [13, 25, 37, 49, 61, 73, 85, 97, 109, 121]),
        (''D'', [14, 26, 38, 50, 62, 74, 86, 98, 110, 122]),
        (''D#'', [15, 27, 39, 51, 63, 75, 87, 99, 111, 123]),
        (''E'', [16, 28, 40, 52, 64, 76, 88, 100, 112, 124]),
        (''F'', [17, 29, 41, 53, 65, 77, 89, 101, 113, 125]),
        (''F#'', [18, 30, 42, 54, 66, 78, 90, 102, 114]),
        (''G'', [19, 31, 43, 55, 67, 79, 91, 103, 115]),
        (''G#'', [20, 32, 44, 56, 68, 80, 92, 104, 116]),
        (''A'', [21, 33, 45, 57, 69, 81, 93, 105, 117]),
        (''A#'', [22, 34, 46, 58, 70, 82, 94, 106, 118]),
        (''B'', [23, 35, 47, 59, 71, 83, 95, 107, 119])]
       note"

text \<open>
  The table is an object literal, so besides its twelve keys it answers to the property
  names it inherits from \<open>Object.prototype\<close>; what it returns for those is a function or an
  object with no entry at a number.
\<close>

definition inherited_names :: "string list" where
  "inherited_names =
     [''constructor'', ''hasOwnProperty'', ''isPrototypeOf'', ''propertyIsEnumerable'',
      ''toLocaleString'', ''toString'', ''valueOf'', ''__proto__'', ''__defineGetter__'',
      ''__defineSetter__'', ''__lookupGetter__'', ''__lookupSetter__'']"

text \<open>
  \<open>this.noteToMidi[note][octave]\<close>: a \<open>TypeError\<close> when the object has no property of that
  name, \<open>undefined\<close> (\<open>None\<close>) when the name is an inherited one or the octave is not an index
  of the array.
\<close>

definition midiNoteOf :: "string \<Rightarrow> int \<Rightarrow> error + nat option" where
  "midiNoteOf note octave =
     (case noteToMidi note of
        None \<Rightarrow> if note \<in> set inherited_names then Inr None else Inl TypeError
      | Some arr \<Rightarrow>
          Inr (if 0 \<le> octave \<and> nat octave < length arr then Some (arr ! nat octave) else None))"

text \<open>
  \<open>array[i] = x\<close>: an assignment past the end of a JavaScript array makes the array longer;
  the entries in between are holes, which read as \<open>undefined\<close> and count as \<open>false\<close>.
\<close>

definition js_set :: "bool list \<Rightarrow> nat \<Rightarrow> bool \<Rightarrow> bool list" where
  "js_set xs i x =
     (if i < length xs then xs[i := x] else xs @ replicate (i - length xs) False @ [x])"

text \<open>
  In both handlers the guard \<open>!midiNote || midiNote < 12 || midiNote > 125\<close> returns early;
  \<open>undefined\<close> and 0 are falsy.
\<close>

definition pressKey :: "keyboard \<Rightarrow> string \<Rightarrow> int \<Rightarrow> error + keyboard" where
  "pressKey kb note octaveOffset =
     (let octave = currentOctave kb + octaveOffset in
      bindE (midiNoteOf note octave) (\<lambda>midiNote.
      case midiNote of
        None \<Rightarrow> Inr kb
      | Some m \<Rightarrow>
          if m = 0 \<or> m < 12 \<or> 125 < m then Inr kb
          else
            (let arrayIndex = m - 12;
                 noteKey = (note, octave)
             in if noteKey \<in> physicallyPressed kb then Inr kb
                else Inr (kb\<lparr>physicallyPressed := insert noteKey (physicallyPressed kb),
                              keyStates := js_set (keyStates kb) arrayIndex True\<rparr>))))"

definition releaseKey :: "keyboard \<Rightarrow> string \<Rightarrow> int \<Rightarrow> error + keyboard" where
  "releaseKey kb note octaveOffset =
     (let octave = currentOctave kb + octaveOffset in
      bindE (midiNoteOf note octave) (\<lambda>midiNote.
      let noteKey = (note, octave) in
      case midiNote of
        None \<Rightarrow> Inr kb
      | Some m \<Rightarrow>
          if m = 0 \<or> m < 12 \<or> 125 < m then Inr kb
          else if noteKey \<notin> physicallyPressed kb then Inr kb
          else
            (let arrayIndex = m - 12;
                 kb1 = kb\<lparr>physicallyPressed := physicallyPressed kb - {noteKey}\<rparr>
             in if \<not> sustainMode kb1
                then Inr (kb1\<lparr>keyStates := js_set (keyStates kb1) arrayIndex False\<rparr>)
                else Inr kb1)))"

definition toggleSustain :: "keyboard \<Rightarrow> keyboard" where
  "toggleSustain kb = kb\<lparr>sustainMode := \<not> sustainMode kb\<rparr>"

section \<open>The MIDI player (src/js/midi.js, class MIDIPlayer)\<close>

subsection \<open>Events and state\<close>

text \<open>
  The player reads five properties of an event: \<open>type\<close>, \<open>note\<close>, \<open>velocity\<close>, \<open>track\<close> and
  \<open>seconds\<close>. It is given events whose timestamps are finite numbers, and finite arithmetic
  is exact here as above, so \<open>seconds\<close> is a rational; 0.05 is the rational 1/20. The
  rounding of the code's doubles is not modelled: where the code adds 0.05 to 0.1 and gets
  0.15000000000000002, the sum here is 3/20.
\<close>

record pevent =
  pe_type :: "etype option"
  pe_note :: "nat option"
  pe_velocity :: "nat option"
  pe_track :: "nat option"
  pe_seconds :: rat

text \<open>
  The argument of \<open>applyTrackFilter\<close>: the string \<open>'all'\<close>, or a string that \<open>parseInt\<close>
  turns into a number (\<open>None\<close> for \<open>NaN\<close>, which is equal to no track).
\<close>

datatype trackFilter = AllTracks | TrackIndex "int option"

text \<open>
  The fields of the player, and \<open>window.virtualKeyboard\<close>, the keyboard whose \<open>keyStates\<close>
  the player writes. \<open>performance.now() / 1000\<close> is an argument \<open>now\<close> of the operations that
  read the clock. The audio engine (\<open>playNote\<close>, \<open>stopNote\<close>, \<open>stopAllNotes\<close>), the redraw of
  the curves and the timer handle \<open>playbackInterval\<close> are outside this state; the callbacks
  \<open>onTimeUpdate\<close> and \<open>onEnd\<close> only refresh the page. \<open>this.allEvents\<close> is an argument of
  \<open>applyTrackFilter\<close> rather than a field: the filter writes to event objects that
  \<open>allEvents\<close> shares, so the array a later call reads is whatever the caller passes.
\<close>

record player =
  events :: "pevent list"
  isPlaying :: bool
  isPaused :: bool
  currentTime :: rat
  startTime :: rat
  pauseTime :: rat
  eventIndex :: nat
  duration :: rat
  activeNotes :: "nat option set"
  selectedTrack :: trackFilter
  virtualKeyboard :: keyboard

definition new_player :: "keyboard \<Rightarrow> player" where
  "new_player kb =
     \<lparr>events = [], isPlaying = False, isPaused = False, currentTime = 0, startTime = 0,
      pauseTime = 0, eventIndex = 0, duration = 0, activeNotes = {},
      selectedTrack = AllTracks, virtualKeyboard = kb\<rparr>"

subsection \<open>Notes on and off\<close>

text \<open>\<open>window.virtualKeyboard.keyStates.fill(false)\<close>.\<close>

definition clearKeyStates :: "player \<Rightarrow> player" where
  "clearKeyStates s =
     s\<lparr>virtualKeyboard := (virtualKeyboard s)
          \<lparr>keyStates := replicate (length (keyStates (virtualKeyboard s))) False\<rparr>\<rparr>"

text \<open>
  \<open>event.note >= 12 && event.note <= 125\<close> guards \<open>keyStates[event.note - 12] = x\<close>; the
  comparisons are false for an absent note.
\<close>

definition setKeyState :: "nat option \<Rightarrow> bool \<Rightarrow> player \<Rightarrow> player" where
  "setKeyState note x s =
     (case note of
        None \<Rightarrow> s
      | Some n \<Rightarrow>
          if 12 \<le> n \<and> n \<le> 125
          then s\<lparr>virtualKeyboard := (virtualKeyboard s)
                    \<lparr>keyStates := js_set (keyStates (virtualKeyboard s)) (n - 12) x\<rparr>\<rparr>
          else s)"

definition processEvent :: "pevent \<Rightarrow> player \<Rightarrow> player" where
  "processEvent event s =
     (if pe_type event = Some NoteOn then
        setKeyState (pe_note event) True
          (s\<lparr>activeNotes := insert (pe_note event) (activeNotes s)\<rparr>)
      else if pe_type event = Some NoteOff then
        (if pe_note event \<in> activeNotes s then
           setKeyState (pe_note event) False
             (s\<lparr>activeNotes := activeNotes s - {pe_note event}\<rparr>)
         else s)
      else s)"

subsection \<open>Transport\<close>

definition reset :: "player \<Rightarrow> player" where
  "reset s =
     clearKeyStates
       (s\<lparr>currentTime := 0, eventIndex := 0, startTime := 0, pauseTime := 0,
          activeNotes := {}\<rparr>)"

definition stop :: "player \<Rightarrow> player" where
  "stop s =
     reset (clearKeyStates (s\<lparr>isPlaying := False, isPaused := False, activeNotes := {}\<rparr>))"

definition pause :: "player \<Rightarrow> player" where
  "pause s =
     (if isPlaying s \<and> \<not> isPaused s
      then clearKeyStates (s\<lparr>isPaused := True, pauseTime := currentTime s, activeNotes := {}\<rparr>)
      else s)"

definition resume :: "rat \<Rightarrow> player \<Rightarrow> player" where
  "resume now s =
     (if isPaused s then s\<lparr>isPaused := False, startTime := now - pauseTime s\<rparr> else s)"

definition play :: "rat \<Rightarrow> player \<Rightarrow> player" where
  "play now s =
     (if isPaused s then resume now s
      else s\<lparr>isPlaying := True, isPaused := False, startTime := now, eventIndex := 0\<rparr>)"

subsection \<open>update\<close>

text \<open>
  The \<open>while\<close> loop of \<open>update\<close>; next to the state it returns the events it has handed to
  \<open>processEvent\<close>, in the order of the calls.
\<close>

function update_loop :: "player \<Rightarrow> pevent list \<Rightarrow> player \<times> pevent list" where
  "update_loop s dispatched =
     (if eventIndex s < length (events s)
         \<and> pe_seconds (events s ! eventIndex s) \<le> currentTime s
      then (let event = events s ! eventIndex s
            in update_loop ((processEvent event s)\<lparr>eventIndex := eventIndex s + 1\<rparr>)
                 (dispatched @ [event]))
      else (s, dispatched))"
  by pat_completeness auto
termination
  by (relation "measure (\<lambda>(s, dispatched). length (events s) - eventIndex s)")
     (auto simp: processEvent_def setKeyState_def split: option.splits)

declare update_loop.simps [simp del]

definition update :: "rat \<Rightarrow> player \<Rightarrow> player \<times> pevent list" where
  "update now s =
     (if \<not> isPlaying s \<or> isPaused s then (s, [])
      else
        (let (s1, dispatched) = update_loop (s\<lparr>currentTime := now - startTime s\<rparr>) []
         in if duration s1 \<le> currentTime s1 then (stop s1, dispatched)
            else (s1, dispatched)))"

subsection \<open>seek\<close>

function seek_index :: "pevent list \<Rightarrow> rat \<Rightarrow> nat \<Rightarrow> nat" where
  "seek_index evs targetTime idx =
     (if idx < length evs \<and> pe_seconds (evs ! idx) < targetTime
      then seek_index evs targetTime (idx + 1) else idx)"
  by pat_completeness auto
termination
  by (relation "measure (\<lambda>(evs, targetTime, idx). length evs - idx)") auto

declare seek_index.simps [simp del]

text \<open>
  The backwards scan: the events before the index, last one first, with the set
  \<open>notesAtTime\<close> and the set \<open>activeNotes\<close> being filled.
\<close>

fun seek_scan :: "pevent list \<Rightarrow> nat option set \<Rightarrow> nat option set \<Rightarrow> nat option set" where
  "seek_scan [] notesAtTime active = active"
| "seek_scan (event # rest) notesAtTime active =
     (if pe_type event = Some NoteOn \<and> pe_note event \<notin> notesAtTime
      then seek_scan rest (insert (pe_note event) notesAtTime) (insert (pe_note event) active)
      else if pe_type event = Some NoteOff
      then seek_scan rest (insert (pe_note event) notesAtTime) active
      else seek_scan rest notesAtTime active)"

definition seek :: "rat \<Rightarrow> rat \<Rightarrow> player \<Rightarrow> player" where
  "seek now timePercent s =
     (let targetTime = duration s * timePercent;
          idx = seek_index (events s) targetTime 0;
          s1 = s\<lparr>eventIndex := idx,
                 activeNotes := seek_scan (rev (take idx (events s))) {} {}\<rparr>
      in if isPlaying s1 \<and> \<not> isPaused s1 then s1\<lparr>startTime := now - targetTime\<rparr>
         else s1\<lparr>currentTime := targetTime, pauseTime := targetTime\<rparr>)"

subsection \<open>applyTrackFilter\<close>

text \<open>
  \<open>Array.prototype.sort\<close> with a comparator. The sort is stable, and for a comparator that is
  a consistent order the result is the stable sort by it; insertion sort gives that. For a
  comparator that is not one, the standard leaves the order of the result to the
  implementation; only the first sort of \<open>applyTrackFilter\<close> has such a comparator, and only
  among events of equal \<open>seconds\<close>. On a list with such events the order given here is one
  the standard allows and need not be the one a given engine produces.
\<close>

fun insort_cmp :: "('a \<Rightarrow> 'a \<Rightarrow> rat) \<Rightarrow> 'a \<Rightarrow> 'a list \<Rightarrow> 'a list" where
  "insort_cmp cmp x [] = [x]"
| "insort_cmp cmp x (y # ys) =
     (if cmp x y \<le> 0 then x # y # ys else y # insort_cmp cmp x ys)"

definition js_sort :: "('a \<Rightarrow> 'a \<Rightarrow> rat) \<Rightarrow> 'a list \<Rightarrow> 'a list" where
  "js_sort cmp xs = foldr (insort_cmp cmp) xs []"

text \<open>The comparator of the first sort, and \<open>(a, b) => a.seconds - b.seconds\<close>.\<close>

definition cmp_time_type :: "pevent \<Rightarrow> pevent \<Rightarrow> rat" where
  "cmp_time_type a b =
     (if pe_seconds a \<noteq> pe_seconds b then pe_seconds a - pe_seconds b
      else if pe_note a \<noteq> pe_note b then 0
      else if pe_type a = Some NoteOff \<and> pe_type b = Some NoteOn then - 1
      else if pe_type a = Some NoteOn \<and> pe_type b = Some NoteOff then 1
      else 0)"

definition cmp_seconds :: "pevent \<Rightarrow> pevent \<Rightarrow> rat" where
  "cmp_seconds a b = pe_seconds a - pe_seconds b"

text \<open>
  \<open>Math.round(event.seconds * 1000)\<close>, and the \<open>Map\<close> from time keys to arrays of events,
  which keeps its keys in the order of their first insertion.
\<close>

definition timeKey :: "pevent \<Rightarrow> int" where
  "timeKey event = \<lfloor>pe_seconds event * 1000 + 1 / 2\<rfloor>"

fun group_insert :: "int \<Rightarrow> pevent \<Rightarrow> (int \<times> pevent list) list \<Rightarrow> (int \<times> pevent list) list" where
  "group_insert k event [] = [(k, [event])]"
| "group_insert k event ((k', es) # groups) =
     (if k = k' then (k', es @ [event]) # groups else (k', es) # group_insert k event groups)"

definition eventGroups :: "pevent list \<Rightarrow> (int \<times> pevent list) list" where
  "eventGroups evs = foldl (\<lambda>groups event. group_insert (timeKey event) event groups) [] evs"

text \<open>
  One time group: \<open>noteStates\<close> maps a note to the type of the last event kept for it, and
  a noteOn or noteOff is kept when there is no such type or it differs from the event's.
\<close>

fun dedup_group :: "pevent list \<Rightarrow> (nat option \<rightharpoonup> etype) \<Rightarrow> pevent list" where
  "dedup_group [] noteStates = []"
| "dedup_group (event # rest) noteStates =
     (if pe_type event \<noteq> Some NoteOn \<and> pe_type event \<noteq> Some NoteOff
      then event # dedup_group rest noteStates
      else
        (let ty = (if pe_type event = Some NoteOn then NoteOn else NoteOff);
             lastEventType = noteStates (pe_note event)
         in if lastEventType = None
               \<or> (lastEventType = Some NoteOff \<and> ty = NoteOn)
               \<or> (lastEventType = Some NoteOn \<and> ty = NoteOff)
            then event # dedup_group rest (noteStates(pe_note event \<mapsto> ty))
            else dedup_group rest noteStates))"

text \<open>
  The loop that extends short notes. For a noteOn at \<open>i\<close> the inner loop looks for the first
  noteOff of the same note after \<open>i\<close> and, when it comes less than 0.05 after the noteOn,
  moves it to 0.05 after the noteOn, in place.
\<close>

function find_noteOff :: "pevent list \<Rightarrow> nat option \<Rightarrow> nat \<Rightarrow> nat option" where
  "find_noteOff d note j =
     (if j < length d
      then (if pe_type (d ! j) = Some NoteOff \<and> pe_note (d ! j) = note then Some j
            else find_noteOff d note (j + 1))
      else None)"
  by pat_completeness auto
termination
  by (relation "measure (\<lambda>(d, note, j). length d - j)") auto

declare find_noteOff.simps [simp del]

definition extend_at :: "pevent list \<Rightarrow> nat \<Rightarrow> pevent list" where
  "extend_at d i =
     (let current = d ! i in
      if pe_type current = Some NoteOn then
        (case find_noteOff d (pe_note current) (i + 1) of
           None \<Rightarrow> d
         | Some j \<Rightarrow>
             (let candidate = d ! j in
              if pe_seconds candidate - pe_seconds current < 1 / 20
              then d[j := candidate\<lparr>pe_seconds := pe_seconds current + 1 / 20\<rparr>]
              else d))
      else d)"

definition extendShortNotes :: "pevent list \<Rightarrow> pevent list" where
  "extendShortNotes d = foldl extend_at d [0..<length d - 1]"

definition trackMatches :: "pevent \<Rightarrow> int option \<Rightarrow> bool" where
  "trackMatches event trackIndex =
     (case (pe_track event, trackIndex) of
        (Some t, Some k) \<Rightarrow> int t = k
      | _ \<Rightarrow> False)"

definition filteredEvents :: "trackFilter \<Rightarrow> pevent list \<Rightarrow> pevent list" where
  "filteredEvents trackFilter allEvents =
     (case trackFilter of
        AllTracks \<Rightarrow> allEvents
      | TrackIndex trackIndex \<Rightarrow>
          filter (\<lambda>event. trackMatches event trackIndex \<or> pe_type event = Some Tempo
                            \<or> pe_type event = Some TimeSignature) allEvents)"

definition deduplicatedEvents :: "pevent list \<Rightarrow> pevent list" where
  "deduplicatedEvents sorted_events =
     concat (map (\<lambda>(k, eventsAtTime). dedup_group eventsAtTime Map.empty)
                 (eventGroups sorted_events))"

text \<open>\<open>Math.max(...this.events.map(e => e.seconds))\<close> of a non-empty array, else 0.\<close>

definition maxSeconds :: "pevent list \<Rightarrow> rat" where
  "maxSeconds evs = (case map pe_seconds evs of [] \<Rightarrow> 0 | x # xs \<Rightarrow> fold max xs x)"

definition applyTrackFilter :: "trackFilter \<Rightarrow> pevent list \<Rightarrow> player \<Rightarrow> player" where
  "applyTrackFilter trackFilter allEvents s =
     (let evs = js_sort cmp_seconds
                  (extendShortNotes
                    (js_sort cmp_seconds
                      (deduplicatedEvents
                        (js_sort cmp_time_type (filteredEvents trackFilter allEvents)))))
      in s\<lparr>selectedTrack := trackFilter, events := evs, duration := maxSeconds evs\<rparr>)"

definition load :: "pevent list \<Rightarrow> player \<Rightarrow> player" where
  "load evs s =
     reset (applyTrackFilter (selectedTrack s)
              (filter (\<lambda>event. pe_type event = Some NoteOn \<or> pe_type event = Some NoteOff
                                \<or> pe_type event = Some Tempo
                                \<or> pe_type event = Some TimeSignature) evs) s)"

subsection \<open>Example events and the synchronisation of notes and keys\<close>

text \<open>
  For stating properties of the player, not taken from the code: a noteOn and a noteOff of
  track 0 at a given time, and \<open>synced\<close>, which says that a MIDI note from 12 to 125 is in
  \<open>activeNotes\<close> exactly when its entry of \<open>keyStates\<close> is \<open>true\<close> (the array having the 114
  entries the keyboard's constructor gives it).
\<close>

definition noteOn_at :: "nat \<Rightarrow> rat \<Rightarrow> pevent" where
  "noteOn_at n t =
     \<lparr>pe_type = Some NoteOn, pe_note = Some n, pe_velocity = Some 100, pe_track = Some 0,
      pe_seconds = t\<rparr>"

definition noteOff_at :: "nat \<Rightarrow> rat \<Rightarrow> pevent" where
  "noteOff_at n t =
     \<lparr>pe_type = Some NoteOff, pe_note = Some n, pe_velocity = Some 0, pe_track = Some 0,
      pe_seconds = t\<rparr>"

definition synced :: "player \<Rightarrow> bool" where
  "synced s \<longleftrightarrow>
     length (keyStates (virtualKeyboard s)) = 114
     \<and> (\<forall>n. 12 \<le> n \<and> n \<le> 125 \<longrightarrow>
            (Some n \<in> activeNotes s \<longleftrightarrow> keyStates (virtualKeyboard s) ! (n - 12)))"

subsection \<open>A play run\<close>

text \<open>
  Not taken from the code: the timer started by \<open>play\<close> calls \<open>update\<close> again and again, each
  call reading the clock. \<open>run_updates\<close> makes these calls for a list of clock readings and
  collects the events handed to \<open>processEvent\<close>.
\<close>

fun run_updates :: "player \<Rightarrow> rat list \<Rightarrow> player \<times> pevent list" where
  "run_updates s [] = (s, [])"
| "run_updates s (now # nows) =
     (let (s1, d1) = update now s;
          (s2, d2) = run_updates s1 nows
      in (s2, d1 @ d2))"

section \<open>The curve generator (src/js/lissajous.js, class LissajousGenerator)\<close>

text \<open>
  \<open>createCurve\<close> computes with JavaScript numbers, \<open>Math.sin\<close> and \<open>Math.PI\<close>; here a number
  is a real, the sine is the sine and rounding is not modelled. Of the object it returns the
  model keeps the points handed to the geometry, the three axis frequencies and the three
  ratios; the material, the colour and the time stamp are left out. A vector is a triple.
\<close>

record curve =
  cv_points :: "(real \<times> real \<times> real) list"
  cv_frequencies :: "real \<times> real \<times> real"
  cv_ratios :: "real \<times> real \<times> real"

text \<open>
  \<open>a || b\<close> on numbers: \<open>a\<close> unless it is falsy, that is \<open>undefined\<close> or 0. \<open>frequencies[i]\<close> is
  \<open>undefined\<close> past the end of the array.
\<close>

definition js_or :: "real option \<Rightarrow> real \<Rightarrow> real" where
  "js_or a b = (case a of None \<Rightarrow> b | Some x \<Rightarrow> if x \<noteq> 0 then x else b)"

definition js_nth :: "real list \<Rightarrow> nat \<Rightarrow> real option" where
  "js_nth xs i = (if i < length xs then Some (xs ! i) else None)"

definition createCurve :: "real \<Rightarrow> real list \<Rightarrow> curve option" where
  "createCurve tRange frequencies =
     (case frequencies of
        [] \<Rightarrow> None
      | f0 # _ \<Rightarrow>
          (let x = js_or (Some f0) 440;
               y = js_or (js_nth frequencies 1) (js_or (Some (f0 * 1.5)) 660);
               z = js_or (js_nth frequencies 2) (js_or (Some (f0 * 2)) 880);
               baseFreq = min x (min y z);
               rx = x / baseFreq;
               ry = y / baseFreq;
               rz = z / baseFreq;
               numPoints = 2000;
               scale = 5
           in Some
                \<lparr>cv_points =
                   map (\<lambda>i. let t = (real i / real numPoints) * pi * tRange
                            in (scale * sin (rx * t),
                                scale * sin (ry * t + pi / 4),
                                scale * sin (rz * t + pi / 2)))
                       [0..<numPoints],
                 cv_frequencies = (x, y, z),
                 cv_ratios = (rx, ry, rz)\<rparr>))"

section \<open>Properties of the parser\<close>

subsection \<open>readVariableLength\<close>

lemma sint_toInt32: "sint (word_of_nat n :: 32 word) = toInt32 (int n)"
  using sint_sbintrunc' [where 'a=32, of "int n"]
  by (simp add: toInt32_def signed_take_bit_eq_take_bit_shift take_bit_eq_mod)

lemma and_7F: "(b::nat) AND 0x7F = take_bit 7 b"
  by (simp add: take_bit_eq_mask mask_eq_exp_minus_1)

lemma vlq_acc_step:
  "push_bit 7 (word_of_nat acc :: 32 word) OR word_of_nat (b AND 0x7F)
     = word_of_nat (base128_step acc b)"
proof -
  have "push_bit 7 (word_of_nat acc :: 32 word) OR word_of_nat (b AND 0x7F)
        = push_bit 7 (word_of_nat acc) + word_of_nat (b AND 0x7F)"
    unfolding and_7F
    by (rule disjunctive_add_eq_or [symmetric]) (auto simp: bit_eq_iff bit_simps)
  then show ?thesis
    by (simp add: base128_step_def push_bit_eq_mult)
qed

lemma getUint8_drop:
  "getUint8 v off = (if off < 0 then Inl RangeError else
      case drop (nat off) v of [] \<Rightarrow> Inl RangeError | b # _ \<Rightarrow> Inr (unat b))"
  by (auto simp: getUint8_def split: list.splits simp: hd_drop_conv_nth 
      dest!: arg_cong[where f=hd] )

lemma loop_decodes:
  "0 \<le> off + k \<Longrightarrow>
   readVariableLength_loop v off (word_of_nat acc) k =
     (case vlq_bytes (map unat (drop (nat (off + k)) v)) of
        None \<Rightarrow> Inl RangeError
      | Some bs \<Rightarrow> Inr \<lparr>vl_value = toInt32 (int (foldl base128_step acc bs)),
                         vl_bytesRead = k + int (length bs)\<rparr>)"
proof (induction "drop (nat (off + k)) v" arbitrary: k acc)
  case Nil
  then show ?case
    by (subst readVariableLength_loop.simps) (simp add: getUint8_drop)
next
  case (Cons b bs)
  have n: "nat (off + (k + 1)) = Suc (nat (off + k))"
    using Cons.prems by linarith
  have "drop (nat (off + (k + 1))) v = tl (drop (nat (off + k)) v)"
    unfolding n by (simp add: drop_Suc tl_drop)
  then have d: "drop (nat (off + (k + 1))) v = bs"
    by (simp add: Cons.hyps(2) [symmetric])
  have g: "getUint8 v (off + k) = Inr (unat b)"
    using Cons.hyps(2) [symmetric] Cons.prems by (simp add: getUint8_drop)
  show ?case
  proof (cases "unat b AND 0x80 = 0")
    case True
    then show ?thesis
      using Cons.hyps(2) [symmetric] g
      by (subst readVariableLength_loop.simps)
         (simp add: vlq_acc_step sint_toInt32 Let_def)
  next
    case False
    have "0 \<le> off + (k + 1)" using Cons.prems by simp
    from Cons.hyps(1) [OF d [symmetric] this, of "base128_step acc (unat b)"]
    show ?thesis
      using False Cons.hyps(2) [symmetric] g
      by (subst readVariableLength_loop.simps)
         (simp add: vlq_acc_step Let_def d split: option.splits)
  qed
qed


lemma base128_step_bound: "foldl base128_step acc bs < (acc + 1) * 128 ^ length bs"
proof (induction bs arbitrary: acc)
  case Nil
  then show ?case by simp
next
  case (Cons b bs)
  have "b AND 0x7F < 128"
    by (simp add: and_7F take_bit_eq_mod)
  then have "base128_step acc b + 1 \<le> (acc + 1) * 128"
    by (simp add: base128_step_def)
  then have "(base128_step acc b + 1) * 128 ^ length bs \<le> (acc + 1) * 128 * 128 ^ length bs"
    by (rule mult_le_mono1)
  with Cons.IH [of "base128_step acc b"]
  have "foldl base128_step (base128_step acc b) bs < (acc + 1) * 128 * 128 ^ length bs"
    by (rule less_le_trans)
  then show ?case
    by (simp add: algebra_simps)
qed

lemma base128_small: "length bs \<le> 4 \<Longrightarrow> toInt32 (int (base128 bs)) = int (base128 bs)"
proof -
  assume "length bs \<le> 4"
  then have "(128::nat) ^ length bs \<le> 128 ^ 4"
    by (intro power_increasing) simp_all
  with base128_step_bound [of 0 bs] have "base128 bs < 2 ^ 31"
    by (simp add: base128_def)
  then have "int (base128 bs) < int (2 ^ 31)" by (simp only: of_nat_less_iff)
  then have "int (base128 bs) < 2 ^ 31" by simp
  then show ?thesis
    by (simp add: toInt32_def)
qed

lemma readVariableLength_eq:
  "readVariableLength v off =
     (if off < 0 then Inl RangeError
      else case vlq_bytes (map unat (drop (nat off) v)) of
             None \<Rightarrow> Inl RangeError
           | Some bs \<Rightarrow> Inr \<lparr>vl_value = toInt32 (int (base128 bs)),
                              vl_bytesRead = int (length bs)\<rparr>)"
proof (cases "off < 0")
  case True
  then show ?thesis
    unfolding readVariableLength_def
    by (subst readVariableLength_loop.simps) (simp add: getUint8_def)
next
  case False
  then show ?thesis
    using loop_decodes [of off 0 v 0]
    by (simp add: readVariableLength_def base128_def split: option.splits)
qed

text \<open>
  Claim C2, as the code has it. \<open>readVariableLength\<close> consumes the bytes from \<open>offset\<close> up to
  and including the first byte whose high bit is clear, and \<open>bytesRead\<close> is their number.
  The value is the base-128 big-endian combination of their 7 low bits read as a signed
  32-bit integer, which is the combination itself whenever at most four bytes are consumed
  (the longest quantity a MIDI file may hold). When no byte with a clear high bit follows
  inside the buffer, or the offset is negative, the read throws a \<open>RangeError\<close>.
\<close>

theorem readVariableLength_decodes:
  "readVariableLength v off =
     (if off < 0 then Inl RangeError
      else case vlq_bytes (map unat (drop (nat off) v)) of
             None \<Rightarrow> Inl RangeError
           | Some bs \<Rightarrow> Inr \<lparr>vl_value = toInt32 (int (base128 bs)),
                              vl_bytesRead = int (length bs)\<rparr>)
   \<and> (\<forall>bs. length bs \<le> 4 \<longrightarrow> toInt32 (int (base128 bs)) = int (base128 bs))"
  using readVariableLength_eq base128_small by blast

text \<open>An instance: the two bytes 0x81 0x00 decode to 128.\<close>

theorem readVariableLength_decodes_witness:
  "readVariableLength [0x81, 0x00, 0x55] 0 = Inr \<lparr>vl_value = 128, vl_bytesRead = 2\<rparr>
   \<and> toInt32 (int (base128 [0x81, 0x00])) = int (base128 [0x81, 0x00])"
  using readVariableLength_decodes [of "[0x81, 0x00, 0x55]" 0]
  by (simp add: base128_def base128_step_def toInt32_def)

text \<open>
  Claim C2 as stated fails on a quantity of five bytes: 0x88 0x80 0x80 0x80 0x00 combines
  to 2147483648, and the value returned is -2147483648.
\<close>

theorem readVariableLength_wraps_counterexample:
  "readVariableLength [0x88, 0x80, 0x80, 0x80, 0x00] 0
     = Inr \<lparr>vl_value = - 2147483648, vl_bytesRead = 5\<rparr>
   \<and> vlq_bytes (map unat [0x88, 0x80, 0x80, 0x80, 0x00 :: 8 word]) = Some [0x88, 0x80, 0x80, 0x80, 0x00]
   \<and> base128 [0x88, 0x80, 0x80, 0x80, 0x00] = 2147483648"
  by (simp add: readVariableLength_eq base128_def base128_step_def toInt32_def)

subsection \<open>parseEvent: Note On with velocity zero\<close>

lemma parseMessage_case9:
  assumes "drop_bit 4 (js_int32 status AND 0xF0) = 9"
    and "getUint8 v (off + k) = Inr n"
    and "getUint8 v (off + k + 1) = Inr vel"
  shows "parseMessage v off status k ev =
     Inr (ev\<lparr>ev_type := Some (if vel = 0 then NoteOff else NoteOn),
              ev_channel := Some (js_int32 status AND 0x0F), ev_note := Some n,
              ev_velocity := Some vel, ev_status := status, ev_bytesRead := k + 2\<rparr>)"
  unfolding parseMessage_def Let_def using assms by (simp add: bindE_def)

text \<open>
  Claim C9. The status of an event is the byte at \<open>offset\<close>, or the running status when that
  byte is below 0x80; the data bytes follow the status byte, or start at \<open>offset\<close> under
  running status. When the high nibble of the status is 9, \<open>parseEvent\<close> returns an event of
  type \<open>noteOff\<close> if the velocity byte is 0 and of type \<open>noteOn\<close> otherwise.
\<close>

theorem noteOn_velocity_zero_is_noteOff:
  assumes "getUint8 v off = Inr b"
    and "status = (if b < 0x80 then runningStatus else Some b)"
    and "k = (if b < 0x80 then 0 else 1)"
    and "drop_bit 4 (js_int32 status AND 0xF0) = 9"
    and "getUint8 v (off + k) = Inr n"
    and "getUint8 v (off + k + 1) = Inr vel"
  shows "\<exists>e. parseEvent v off runningStatus t = Inr e
           \<and> ev_type e = Some (if vel = 0 then NoteOff else NoteOn)
           \<and> ev_velocity e = Some vel \<and> ev_note e = Some n \<and> ev_status e = status"
proof -
  have "parseEvent v off runningStatus t = parseMessage v off status k (new_event t)"
    using assms(1-3) by (simp add: parseEvent_def bindE_def)
  also note parseMessage_case9 [OF assms(4-6)]
  finally show ?thesis by simp
qed

text \<open>
  Two instances: 0x90 60 0 is a release, and the data bytes 60 100 under the running status
  0x93 are a note start.
\<close>

theorem noteOn_velocity_zero_is_noteOff_witness:
  "(\<exists>e. parseEvent [0x90, 60, 0] 0 (Some 0) 5 = Inr e \<and> ev_type e = Some NoteOff
        \<and> ev_velocity e = Some 0 \<and> ev_note e = Some 60 \<and> ev_status e = Some 0x90)
   \<and> (\<exists>e. parseEvent [60, 100] 0 (Some 0x93) 5 = Inr e \<and> ev_type e = Some NoteOn
        \<and> ev_velocity e = Some 100 \<and> ev_note e = Some 60 \<and> ev_status e = Some 0x93)"
  using noteOn_velocity_zero_is_noteOff [of "[0x90, 60, 0]" 0 "0x90" "Some 0x90" "Some 0" 1 60 0 5]
    noteOn_velocity_zero_is_noteOff [of "[60, 100]" 0 60 "Some 0x93" "Some 0x93" 0 60 100 5]
  by (simp add: getUint8_def js_int32_def)

subsection \<open>Sequencing of reads that can throw\<close>

lemma bindE_simps [simp]:
  "bindE (Inl e) f = Inl e"
  "bindE (Inr x) f = f x"
  by (simp_all add: bindE_def)

subsection \<open>Header and track chunks\<close>

lemma readString_eq:
  "readString v off n =
     (if n = 0 then Inr []
      else if off < 0 \<or> int (length v) < off + int n then Inl RangeError
      else Inr (map (\<lambda>w. char_of (unat w)) (take n (drop (nat off) v))))"
proof (induction n arbitrary: off)
  case 0
  then show ?case by simp
next
  case (Suc n)
  show ?case
  proof (cases "off < 0 \<or> int (length v) \<le> off")
    case True
    then show ?thesis by (auto simp: getUint8_def)
  next
    case False
    then have g: "getUint8 v off = Inr (unat (v ! nat off))"
      by (simp add: getUint8_def)
    have d: "drop (nat off) v = v ! nat off # drop (nat (off + 1)) v"
    proof -
      have "nat off < length v" using False by linarith
      then show ?thesis
        using False by (simp add: nat_add_distrib Cons_nth_drop_Suc)
    qed
    show ?thesis
      using False by (auto simp: g Suc.IH d)
  qed
qed

lemma parseHeaderChunk_eq:
  "parseHeaderChunk v off =
     (if off < 0 \<or> int (length v) < off + 4 then Inl RangeError
      else if signature_at v off \<noteq> ''MThd'' then Inl InvalidMThd
      else if int (length v) < off + 14 then Inl RangeError
      else Inr \<lparr>h_length = byte_at v (off + 4) * 16777216 + byte_at v (off + 5) * 65536
                            + byte_at v (off + 6) * 256 + byte_at v (off + 7),
                h_format = byte_at v (off + 8) * 256 + byte_at v (off + 9),
                h_trackCount = byte_at v (off + 10) * 256 + byte_at v (off + 11),
                h_ticksPerQuarter = byte_at v (off + 12) * 256 + byte_at v (off + 13)\<rparr>)"
  by (auto simp: parseHeaderChunk_def readString_eq signature_at_def byte_at_def getUint32_def
      getUint16_def nat_add_distrib add.commute)

lemma getUint8_error: "getUint8 v x = Inl e \<Longrightarrow> e = RangeError"
  by (simp add: getUint8_def split: if_splits)

lemma getUint32_error: "getUint32 v x = Inl e \<Longrightarrow> e = RangeError"
  by (simp add: getUint32_def split: if_splits)

lemma readVariableLength_error: "readVariableLength v x = Inl e \<Longrightarrow> e = RangeError"
  by (simp add: readVariableLength_eq split: if_splits option.splits)

lemma parseMeta_error: "parseMeta v off k ev = Inl e \<Longrightarrow> e = RangeError"
  by (auto simp: parseMeta_def bindE_def Let_def split: sum.splits if_splits
      dest: getUint8_error readVariableLength_error)

lemma parseMessage_error: "parseMessage v off st k ev = Inl e \<Longrightarrow> e = RangeError"
  by (auto simp: parseMessage_def bindE_def Let_def split: sum.splits if_splits
      dest: getUint8_error parseMeta_error)

lemma parseEvent_error: "parseEvent v off rs t = Inl e \<Longrightarrow> e = RangeError"
  by (auto simp: parseEvent_def bindE_def split: sum.splits if_splits
      dest: getUint8_error parseMessage_error)

lemma parseTrack_loop_error:
  "parseTrack_loop fuel v trackEnd trackOffset rs ct evs = Some (Inl e) \<Longrightarrow> e = RangeError"
proof (induction fuel arbitrary: trackOffset rs ct evs)
  case 0
  then show ?case by simp
next
  case (Suc fuel)
  then show ?case
    by (auto simp: Let_def split: if_splits sum.splits
        dest: readVariableLength_error parseEvent_error)
qed

lemma parseTrackChunk_signature_error:
  "parseTrackChunk fuel v off = Some (Inl InvalidMTrk)
     \<longleftrightarrow> 0 \<le> off \<and> off + 4 \<le> int (length v) \<and> signature_at v off \<noteq> ''MTrk''"
  by (auto simp: parseTrackChunk_def readString_eq signature_at_def
      split: sum.splits option.splits if_splits
      dest: getUint32_error parseTrack_loop_error)

lemma parseTrackChunk_error:
  "parseTrackChunk fuel v off = Some (Inl e) \<Longrightarrow> e = InvalidMTrk \<or> e = RangeError"
  by (auto simp: parseTrackChunk_def readString_eq
      split: sum.splits option.splits if_splits
      dest: getUint32_error parseTrack_loop_error)


text \<open>
  Claim C4, as the code has it. \<open>parseHeaderChunk\<close> throws its "Missing MThd signature"
  error exactly when four bytes are there and are not \<open>MThd\<close>; it throws a \<open>RangeError\<close> when
  fewer than four bytes are there, or when the signature is right and fewer than 14 bytes are;
  otherwise it returns the length as the big-endian 32-bit field at offset 4 and format,
  trackCount and ticksPerQuarter as the big-endian 16-bit fields at offsets 8, 10 and 12.
  \<open>parseTrackChunk\<close> throws its "Missing MTrk signature" error exactly when four bytes are
  there and are not \<open>MTrk\<close>, and the only other error it throws is a \<open>RangeError\<close>.
\<close>

theorem chunk_errors:
  "parseHeaderChunk v off =
     (if off < 0 \<or> int (length v) < off + 4 then Inl RangeError
      else if signature_at v off \<noteq> ''MThd'' then Inl InvalidMThd
      else if int (length v) < off + 14 then Inl RangeError
      else Inr \<lparr>h_length = byte_at v (off + 4) * 16777216 + byte_at v (off + 5) * 65536
                            + byte_at v (off + 6) * 256 + byte_at v (off + 7),
                h_format = byte_at v (off + 8) * 256 + byte_at v (off + 9),
                h_trackCount = byte_at v (off + 10) * 256 + byte_at v (off + 11),
                h_ticksPerQuarter = byte_at v (off + 12) * 256 + byte_at v (off + 13)\<rparr>)
   \<and> (parseTrackChunk fuel w pos = Some (Inl InvalidMTrk)
        \<longleftrightarrow> 0 \<le> pos \<and> pos + 4 \<le> int (length w) \<and> signature_at w pos \<noteq> ''MTrk'')
   \<and> (\<forall>e. parseTrackChunk fuel w pos = Some (Inl e) \<longrightarrow> e = InvalidMTrk \<or> e = RangeError)"
  using parseHeaderChunk_eq parseTrackChunk_signature_error parseTrackChunk_error by blast

text \<open>A header that parses, and a track chunk that starts with the wrong four bytes.\<close>

theorem chunk_errors_witness:
  "parseHeaderChunk [0x4D, 0x54, 0x68, 0x64, 0, 0, 0, 6, 0, 1, 0, 2, 1, 0xE0] 0
     = Inr \<lparr>h_length = 6, h_format = 1, h_trackCount = 2, h_ticksPerQuarter = 480\<rparr>
   \<and> parseTrackChunk 5 [0x4D, 0x54, 0x68, 0x64, 0, 0, 0, 0] 0 = Some (Inl InvalidMTrk)"
  using chunk_errors [where v = "[0x4D, 0x54, 0x68, 0x64, 0, 0, 0, 6, 0, 1, 0, 2, 1, 0xE0]"
      and off = 0 and fuel = 5 and w = "[0x4D, 0x54, 0x68, 0x64, 0, 0, 0, 0]" and pos = 0]
  by (simp add: signature_at_def byte_at_def char_of_def bit_0)

text \<open>
  Claim C4 as stated fails on a truncated file: a buffer that holds the four bytes \<open>MThd\<close>
  and nothing else makes \<open>parseHeaderChunk\<close> throw, and a track chunk with the right
  signature whose declared length runs past the buffer makes \<open>parseTrackChunk\<close> throw.
\<close>

theorem chunk_errors_counterexample:
  "signature_at [0x4D, 0x54, 0x68, 0x64] 0 = ''MThd''
   \<and> parseHeaderChunk [0x4D, 0x54, 0x68, 0x64] 0 = Inl RangeError
   \<and> signature_at [0x4D, 0x54, 0x72, 0x6B, 0, 0, 0, 1] 0 = ''MTrk''
   \<and> parseTrackChunk (Suc 0) [0x4D, 0x54, 0x72, 0x6B, 0, 0, 0, 1] 0 = Some (Inl RangeError)"
  by (simp add: parseHeaderChunk_eq parseTrackChunk_def readString_eq getUint32_def
      readVariableLength_eq signature_at_def char_of_def bit_0)

subsection \<open>processEvents\<close>

lemma parseMeta_parsed:
  "parseMeta v off k ev = Inr e \<Longrightarrow> ev_type ev = None \<Longrightarrow> ev_track ev = None
     \<Longrightarrow> ev_seconds ev = None \<Longrightarrow> parsed_event e"
  by (auto simp: parseMeta_def bindE_def Let_def parsed_event_def split: sum.splits if_splits)

lemma parseMessage_parsed:
  "parseMessage v off st k (new_event t) = Inr e \<Longrightarrow> parsed_event e"
  using parseMeta_parsed [of v off k "new_event t" e]
  by (auto simp: parseMessage_def bindE_def Let_def parsed_event_def new_event_def
      split: sum.splits if_splits)

lemma parseEvent_parsed: "parseEvent v off rs t = Inr e \<Longrightarrow> parsed_event e"
  by (auto simp: parseEvent_def bindE_def split: sum.splits if_splits dest: parseMessage_parsed)

lemma parseTrack_loop_parsed:
  "parseTrack_loop fuel v trackEnd trackOffset rs ct evs = Some (Inr res)
     \<Longrightarrow> \<forall>e\<in>set evs. parsed_event e \<Longrightarrow> \<forall>e\<in>set res. parsed_event e"
proof (induction fuel arbitrary: trackOffset rs ct evs)
  case 0
  then show ?case by simp
next
  case (Suc fuel)
  show ?case
  proof (cases "trackOffset < trackEnd")
    case False
    with Suc.prems show ?thesis by simp
  next
    case True
    with Suc.prems(1) obtain dt ev where
      dt: "readVariableLength v trackOffset = Inr dt"
      and ev: "parseEvent v (trackOffset + vl_bytesRead dt) rs (ct + vl_value dt) = Inr ev"
      by (auto simp: Let_def split: sum.splits)
    from Suc.prems(1) True dt ev obtain rs' where
      "parseTrack_loop fuel v trackEnd (trackOffset + vl_bytesRead dt + ev_bytesRead ev) rs'
         (ct + vl_value dt) (evs @ [ev]) = Some (Inr res)"
      by (auto simp: Let_def split: if_splits)
    moreover have "\<forall>e\<in>set (evs @ [ev]). parsed_event e"
      using Suc.prems(2) parseEvent_parsed [OF ev] by simp
    ultimately show ?thesis by (rule Suc.IH)
  qed
qed

lemma parseTrackChunk_parsed:
  "parseTrackChunk fuel v off = Some (Inr tr) \<Longrightarrow> \<forall>e\<in>set (tr_events tr). parsed_event e"
  by (auto simp: parseTrackChunk_def split: sum.splits option.splits if_splits
      dest!: parseTrack_loop_parsed)

lemma parseTracks_parsed:
  "parseTracks fuel v off n trs = Some (Inr res)
     \<Longrightarrow> \<forall>tr\<in>set trs. \<forall>e\<in>set (tr_events tr). parsed_event e
     \<Longrightarrow> \<forall>tr\<in>set res. \<forall>e\<in>set (tr_events tr). parsed_event e"
proof (induction n arbitrary: off trs)
  case 0
  then show ?case by simp
next
  case (Suc n)
  from Suc.prems(1) obtain tr where
    tr: "parseTrackChunk fuel v off = Some (Inr tr)"
    and rest: "parseTracks fuel v (off + int (tr_length tr) + 8) n (trs @ [tr]) = Some (Inr res)"
    by (auto split: option.splits sum.splits)
  have "\<forall>t\<in>set (trs @ [tr]). \<forall>e\<in>set (tr_events t). parsed_event e"
    using Suc.prems(2) parseTrackChunk_parsed [OF tr] by simp
  with rest show ?case by (rule Suc.IH)
qed


lemma assignSeconds_finite:
  assumes "0 < tpq" and "\<forall>e\<in>set evs. ev_type e = Some Tempo \<longrightarrow> ev_tempo e \<noteq> None"
  shows "map ev_seconds (assignSeconds tpq (Fin c) (Fin ct) lastTick evs)
         = map (\<lambda>q. Some (Fin q)) (seconds_from tpq c ct lastTick evs)"
  using assms(2)
proof (induction evs arbitrary: c ct lastTick)
  case Nil
  then show ?case by simp
next
  case (Cons e es)
  then show ?case
    using assms(1) by (auto simp: Let_def js_number_def)
qed

lemma assignSeconds_untagged:
  "map untagged (assignSeconds tpq c ct lastTick evs) = map untagged evs"
  by (induction evs arbitrary: c ct lastTick) (simp_all add: Let_def untagged_def)

lemma assignSeconds_time:
  "map ev_time (assignSeconds tpq c ct lastTick evs) = map ev_time evs"
  by (induction evs arbitrary: c ct lastTick) (simp_all add: Let_def)

lemma seconds_from_length [simp]: "length (seconds_from tpq c ct lastTick evs) = length evs"
  by (induction evs arbitrary: c ct lastTick) (simp_all add: Let_def)

lemma seconds_from_ge:
  assumes "0 \<le> c" "sorted (map ev_time evs)" "\<forall>e\<in>set evs. lastTick \<le> ev_time e"
  shows "(\<forall>q\<in>set (seconds_from tpq c ct lastTick evs). ct \<le> q)
         \<and> sorted (seconds_from tpq c ct lastTick evs)"
  using assms
proof (induction evs arbitrary: c ct lastTick)
  case Nil
  then show ?case by simp
next
  case (Cons e es)
  define c1 where "c1 = (if ev_type e = Some Tempo
                then (case ev_tempo e of Some n \<Rightarrow> of_nat n | None \<Rightarrow> c) else c)"
  define ct1 where "ct1 = ct + (of_int (ev_time e - lastTick) / of_nat tpq) * (c1 / 1000000)"
  have c1: "0 \<le> c1"
    using Cons.prems(1) by (simp add: c1_def split: option.splits)
  have "0 \<le> (of_int (ev_time e - lastTick) / (of_nat tpq :: rat)) * (c1 / 1000000)"
    using Cons.prems(3) c1 by (intro mult_nonneg_nonneg divide_nonneg_nonneg) simp_all
  then have le: "ct \<le> ct1" by (simp add: ct1_def)
  have "(\<forall>q\<in>set (seconds_from tpq c1 ct1 (ev_time e) es). ct1 \<le> q)
         \<and> sorted (seconds_from tpq c1 ct1 (ev_time e) es)"
    using Cons.prems(2) c1 by (intro Cons.IH) simp_all
  moreover have "seconds_from tpq c ct lastTick (e # es)
                 = ct1 # seconds_from tpq c1 ct1 (ev_time e) es"
    unfolding c1_def ct1_def by (simp add: Let_def)
  ultimately show ?case
    using le by auto
qed

lemma seconds_from_sorted:
  assumes "0 \<le> c" "sorted (map ev_time evs)"
  shows "sorted (seconds_from tpq c ct lastTick evs)"
proof (cases evs)
  case Nil
  then show ?thesis by simp
next
  case (Cons e es)
  define c1 where "c1 = (if ev_type e = Some Tempo
                then (case ev_tempo e of Some n \<Rightarrow> of_nat n | None \<Rightarrow> c) else c)"
  define ct1 where "ct1 = ct + (of_int (ev_time e - lastTick) / of_nat tpq) * (c1 / 1000000)"
  have c1: "0 \<le> c1"
    using assms(1) by (simp add: c1_def split: option.splits)
  have "(\<forall>q\<in>set (seconds_from tpq c1 ct1 (ev_time e) es). ct1 \<le> q)
         \<and> sorted (seconds_from tpq c1 ct1 (ev_time e) es)"
    using assms(2) c1 Cons by (intro seconds_from_ge) simp_all
  moreover have "seconds_from tpq c ct lastTick (e # es)
                 = ct1 # seconds_from tpq c1 ct1 (ev_time e) es"
    unfolding c1_def ct1_def by (simp add: Let_def)
  ultimately show ?thesis
    using Cons by simp
qed

lemma seconds_from_nth:
  "i < length evs \<Longrightarrow>
   seconds_from tpq c ct lastTick evs ! i =
     (if i = 0 then ct else seconds_from tpq c ct lastTick evs ! (i - 1))
     + (of_int (ev_time (evs ! i) - (if i = 0 then lastTick else ev_time (evs ! (i - 1))))
          / of_nat tpq)
       * (tempo_after c (take (Suc i) evs) / 1000000)"
proof (induction evs arbitrary: i c ct lastTick)
  case Nil
  then show ?case by simp
next
  case (Cons e es)
  show ?case
  proof (cases i)
    case 0
    then show ?thesis by (simp add: Let_def)
  next
    case (Suc j)
    then have "j < length es" using Cons.prems by simp
    from Cons.IH [OF this] show ?thesis
      using Suc by (cases j) (simp_all add: Let_def)
  qed
qed

lemma nondecreasing_finite: "sorted qs \<Longrightarrow> nondecreasing (map (\<lambda>q. Some (Fin q)) qs)"
  by (induction qs rule: induct_list012) simp_all


lemma untagged_parsed: "parsed_event e \<Longrightarrow> untagged e = e"
  by (simp add: parsed_event_def untagged_def)

lemma mergeTracks_untagged:
  "map untagged (mergeTracks i trs) = map untagged (concat (map tr_events trs))"
  by (induction trs arbitrary: i) (simp_all add: untagged_def)

lemma mergeTracks_tempo:
  "\<forall>tr\<in>set trs. \<forall>e\<in>set (tr_events tr). ev_type e = Some Tempo \<longrightarrow> ev_tempo e \<noteq> None
     \<Longrightarrow> \<forall>e\<in>set (mergeTracks i trs). ev_type e = Some Tempo \<longrightarrow> ev_tempo e \<noteq> None"
  by (induction trs arbitrary: i) auto

lemma tempo_after_untagged:
  "map untagged xs = map untagged ys \<Longrightarrow> tempo_after c xs = tempo_after c ys"
proof (induction xs arbitrary: ys c)
  case Nil
  then show ?case by simp
next
  case (Cons x xs)
  then obtain y ys' where ys: "ys = y # ys'" "untagged x = untagged y"
    "map untagged xs = map untagged ys'"
    by (cases ys) auto
  from ys(2) have "ev_type x = ev_type y" "ev_tempo x = ev_tempo y"
    by (auto simp: untagged_def dest: arg_cong [where f = ev_type] arg_cong [where f = ev_tempo])
  with Cons.IH [OF ys(3)] ys(1) show ?case by simp
qed

lemma processEvents_properties:
  assumes "0 < tpq" and "\<forall>tr\<in>set tracks. \<forall>e\<in>set (tr_events tr). parsed_event e"
  defines "evs \<equiv> processEvents tpq tracks"
  defines "qs \<equiv> seconds_from tpq 500000 0 0 (sort_key ev_time (mergeTracks 0 tracks))"
  shows "mset (map untagged evs) = mset (concat (map tr_events tracks))"
    and "sorted (map ev_time evs)"
    and "map ev_seconds evs = map (\<lambda>q. Some (Fin q)) qs"
    and "\<forall>i<length evs. qs ! i = (if i = 0 then 0 else qs ! (i - 1))
            + (of_int (ev_time (evs ! i) - (if i = 0 then 0 else ev_time (evs ! (i - 1))))
                 / of_nat tpq)
              * (tempo_after 500000 (take (Suc i) evs) / 1000000)"
    and "sorted qs"
proof -
  let ?m = "sort_key ev_time (mergeTracks 0 tracks)"
  have u: "map untagged evs = map untagged ?m"
    by (simp add: evs_def processEvents_def assignSeconds_untagged)
  have t: "map ev_time evs = map ev_time ?m"
    by (simp add: evs_def processEvents_def assignSeconds_time)
  have len: "length evs = length ?m"
    using arg_cong [OF t, of length] by simp
  have "mset (map untagged ?m) = mset (map untagged (mergeTracks 0 tracks))"
    by simp
  also have "\<dots> = mset (map untagged (concat (map tr_events tracks)))"
    by (simp only: mergeTracks_untagged)
  also have "map untagged (concat (map tr_events tracks)) = concat (map tr_events tracks)"
    using assms(2) by (intro map_idI) (auto simp: untagged_parsed)
  finally show "mset (map untagged evs) = mset (concat (map tr_events tracks))"
    by (simp only: u)
  show st: "sorted (map ev_time evs)"
    by (simp only: t sorted_sort_key)
  have "\<forall>e\<in>set ?m. ev_type e = Some Tempo \<longrightarrow> ev_tempo e \<noteq> None"
    using mergeTracks_tempo [of tracks 0] assms(2) by (simp add: parsed_event_def)
  from assignSeconds_finite [OF assms(1) this]
  show "map ev_seconds evs = map (\<lambda>q. Some (Fin q)) qs"
    by (simp add: evs_def qs_def processEvents_def)
  show "sorted qs"
    unfolding qs_def by (rule seconds_from_sorted) simp_all
  show "\<forall>i<length evs. qs ! i = (if i = 0 then 0 else qs ! (i - 1))
            + (of_int (ev_time (evs ! i) - (if i = 0 then 0 else ev_time (evs ! (i - 1))))
                 / of_nat tpq)
              * (tempo_after 500000 (take (Suc i) evs) / 1000000)"
  proof (intro allI impI)
    fix i assume i: "i < length evs"
    then have i': "i < length ?m" by (simp only: len)
    have ti: "\<And>j. j < length evs \<Longrightarrow> ev_time (evs ! j) = ev_time (?m ! j)"
      using t len by (metis nth_map)
    have "map untagged (take (Suc i) evs) = map untagged (take (Suc i) ?m)"
      by (simp only: take_map [symmetric] u)
    then have ta: "tempo_after 500000 (take (Suc i) evs) = tempo_after 500000 (take (Suc i) ?m)"
      by (rule tempo_after_untagged)
    show "qs ! i = (if i = 0 then 0 else qs ! (i - 1))
            + (of_int (ev_time (evs ! i) - (if i = 0 then 0 else ev_time (evs ! (i - 1))))
                 / of_nat tpq)
              * (tempo_after 500000 (take (Suc i) evs) / 1000000)"
      using seconds_from_nth [OF i', of tpq 500000 0 0] i ti [of i] ti [of "i - 1"]
      by (simp add: qs_def ta)
  qed
qed


text \<open>
  Claim C1, as the code has it. For every file that \<open>parse\<close> accepts and whose header gives a
  \<open>ticksPerQuarter\<close> other than 0: the returned list holds exactly the events of all parsed
  tracks (each tagged with its track and a timestamp), it is sorted by tick time, every
  timestamp is a finite number, the timestamp of an event is the timestamp of the event
  before it (0 for the first) plus (tick delta / ticksPerQuarter) * (tempo / 1000000), where
  the tempo is that of the last tempo event up to and including the event itself (500000 if
  there is none), and the timestamps are non-decreasing along the list.
\<close>

theorem processEvents_timestamps:
  assumes "parse fuel v = Some (Inr evs)"
    and "parseHeaderChunk v 0 = Inr h"
    and "h_ticksPerQuarter h \<noteq> 0"
  shows "\<exists>tracks qs.
           parseTracks fuel v (int (h_length h) + 8) (h_trackCount h) [] = Some (Inr tracks)
         \<and> evs = processEvents (h_ticksPerQuarter h) tracks
         \<and> mset (map untagged evs) = mset (concat (map tr_events tracks))
         \<and> sorted (map ev_time evs)
         \<and> map ev_seconds evs = map (\<lambda>q. Some (Fin q)) qs
         \<and> (\<forall>i<length evs. qs ! i = (if i = 0 then 0 else qs ! (i - 1))
              + (of_int (ev_time (evs ! i) - (if i = 0 then 0 else ev_time (evs ! (i - 1))))
                   / of_nat (h_ticksPerQuarter h))
                * (tempo_after 500000 (take (Suc i) evs) / 1000000))
         \<and> sorted qs
         \<and> nondecreasing (map ev_seconds evs)"
proof -
  from assms(1,2) obtain tracks where
    tr: "parseTracks fuel v (int (h_length h) + 8) (h_trackCount h) [] = Some (Inr tracks)"
    and evs: "evs = processEvents (h_ticksPerQuarter h) tracks"
    by (auto simp: parse_def split: option.splits sum.splits)
  have p: "\<forall>tr\<in>set tracks. \<forall>e\<in>set (tr_events tr). parsed_event e"
    using parseTracks_parsed [OF tr] by simp
  have tpq: "0 < h_ticksPerQuarter h" using assms(3) by simp
  note props = processEvents_properties [OF tpq p, folded evs]
  have "nondecreasing (map ev_seconds evs)"
    unfolding props(3) using props(5) by (rule nondecreasing_finite)
  with tr evs props show ?thesis by blast
qed

text \<open>
  A file with \<open>ticksPerQuarter\<close> 96 and one track: a note that starts at tick 0 and ends at
  tick 96, half a second later at the default tempo.
\<close>

theorem processEvents_timestamps_witness:
  "map (\<lambda>e. (ev_time e, ev_type e, ev_track e, ev_seconds e))
     (processEvents 96
        [\<lparr>tr_length = 11,
          tr_events =
            [new_event 0 \<lparr>ev_type := Some NoteOn, ev_channel := Some 0, ev_note := Some 60,
               ev_velocity := Some 100, ev_status := Some 144, ev_bytesRead := 3\<rparr>,
             new_event 96 \<lparr>ev_type := Some NoteOff, ev_channel := Some 0, ev_note := Some 60,
               ev_velocity := Some 0, ev_status := Some 144, ev_bytesRead := 2\<rparr>,
             new_event 96 \<lparr>ev_type := Some EndOfTrack, ev_bytesRead := 3\<rparr>]\<rparr>])
   = [(0, Some NoteOn, Some 0, Some (Fin 0)),
      (96, Some NoteOff, Some 0, Some (Fin (1 / 2))),
      (96, Some EndOfTrack, Some 0, Some (Fin (1 / 2)))]
   \<and> nondecreasing [Some (Fin 0), Some (Fin (1 / 2)), Some (Fin (1 / 2))]"
proof -
  let ?v = "[0x4D, 0x54, 0x68, 0x64, 0, 0, 0, 6, 0, 1, 0, 1, 0, 96,
             0x4D, 0x54, 0x72, 0x6B, 0, 0, 0, 11,
             0, 0x90, 60, 100, 96, 60, 0, 0, 0xFF, 0x2F, 0] :: view"
  let ?h = "\<lparr>h_length = 6, h_format = 1, h_trackCount = 1, h_ticksPerQuarter = 96\<rparr>"
  let ?tracks = "[\<lparr>tr_length = 11,
          tr_events =
            [new_event 0 \<lparr>ev_type := Some NoteOn, ev_channel := Some 0, ev_note := Some 60,
               ev_velocity := Some 100, ev_status := Some 144, ev_bytesRead := 3\<rparr>,
             new_event 96 \<lparr>ev_type := Some NoteOff, ev_channel := Some 0, ev_note := Some 60,
               ev_velocity := Some 0, ev_status := Some 144, ev_bytesRead := 2\<rparr>,
             new_event 96 \<lparr>ev_type := Some EndOfTrack, ev_bytesRead := 3\<rparr>]\<rparr>]"
  have h: "parseHeaderChunk ?v 0 = Inr ?h"
    by (simp add: parseHeaderChunk_eq signature_at_def byte_at_def char_of_def bit_0)
  have t: "parseTracks (Suc (Suc (Suc (Suc 0)))) ?v 14 (Suc 0) [] = Some (Inr ?tracks)"
    by (simp add: parseTrackChunk_def readString_eq getUint32_def char_of_def bit_0
        readVariableLength_eq base128_def base128_step_def toInt32_def getUint8_def
        parseEvent_def parseMessage_def parseMeta_def js_int32_def Let_def)
  have p: "parse (Suc (Suc (Suc (Suc 0)))) ?v = Some (Inr (processEvents 96 ?tracks))"
    using t by (simp add: parse_def h)
  have ne: "h_ticksPerQuarter ?h \<noteq> 0" by simp
  from processEvents_timestamps [OF p h ne] have
    "nondecreasing (map ev_seconds (processEvents 96 ?tracks))"
    by blast
  moreover have "map (\<lambda>e. (ev_time e, ev_type e, ev_track e, ev_seconds e))
     (processEvents 96 ?tracks)
   = [(0, Some NoteOn, Some 0, Some (Fin 0)),
      (96, Some NoteOff, Some 0, Some (Fin (1 / 2))),
      (96, Some EndOfTrack, Some 0, Some (Fin (1 / 2)))]"
    by (simp add: processEvents_def new_event_def Let_def js_number_def)
  ultimately show ?thesis by simp
qed

text \<open>
  Claim C1 as stated fails for a file whose header gives \<open>ticksPerQuarter\<close> 0: the file is
  parsed, the division 0 / 0 makes every timestamp \<open>NaN\<close>, and \<open>NaN <= NaN\<close> is false.
\<close>

theorem processEvents_timestamps_counterexample:
  "map_option (map_sum id (map ev_seconds))
     (parse (Suc (Suc (Suc 0)))
        [0x4D, 0x54, 0x68, 0x64, 0, 0, 0, 6, 0, 1, 0, 1, 0, 0,
         0x4D, 0x54, 0x72, 0x6B, 0, 0, 0, 7,
         0, 0x90, 60, 100, 0, 60, 0])
   = Some (Inr [Some NaN, Some NaN])
   \<and> \<not> nondecreasing [Some NaN, Some NaN]"
  by (simp add: parse_def parseHeaderChunk_eq signature_at_def byte_at_def char_of_def bit_0
        parseTrackChunk_def readString_eq getUint32_def
        readVariableLength_eq base128_def base128_step_def toInt32_def getUint8_def
        parseEvent_def parseMessage_def js_int32_def Let_def
        processEvents_def new_event_def js_number_def)

subsection \<open>Running status\<close>

lemma parseMeta_keeps_status:
  "parseMeta v off k ev = Inr e \<Longrightarrow>
     ev_status e = ev_status ev \<and>
     (ev_type e = ev_type ev \<or> ev_type e = Some Tempo \<or> ev_type e = Some TimeSignature
      \<or> ev_type e = Some EndOfTrack \<or> ev_type e = Some Meta)"
  by (auto simp: parseMeta_def bindE_def Let_def split: sum.splits if_splits)

lemma channel_status_ge: "channel_status s \<Longrightarrow> 0x80 \<le> s"
proof -
  assume "channel_status s"
  then have "8 \<le> drop_bit 4 (s AND 0xF0)"
    by (auto simp: channel_status_def)
  then have "128 \<le> s AND 0xF0"
    by (simp add: drop_bit_eq_div)
  also have "s AND 0xF0 \<le> s"
  proof -
    have "int s AND 0xF0 \<le> int s" by (rule AND_upper1) simp
    then have "int (s AND 0xF0) \<le> int s" by (simp add: of_nat_and_eq)
    then show ?thesis by (simp only: of_nat_le_iff)
  qed
  finally show ?thesis by simp
qed

lemma parseEvent_running:
  assumes "channel_status s" "getUint8 v off = Inr d1" "d1 < 0x80"
    and "getUint8 v (off + 1) = Inr d2"
  shows "parseEvent v off (Some s) t = Inr (channel_event t s d1 d2 2)"
  using assms
  by (auto simp: parseEvent_def parseMessage_def channel_event_def channel_status_def
      js_int32_def Let_def)

lemma parseEvent_own_status:
  assumes "channel_status s" "getUint8 v off = Inr s"
    and "getUint8 v (off + 1) = Inr d1" "getUint8 v (off + 2) = Inr d2"
  shows "parseEvent v off rs t = Inr (channel_event t s d1 d2 3)"
  using assms channel_status_ge [OF assms(1)]
  by (auto simp: parseEvent_def parseMessage_def channel_event_def channel_status_def
      js_int32_def Let_def ac_simps)

lemma parseEvent_initial:
  assumes "getUint8 v off = Inr d1" "d1 < 0x80"
  shows "parseEvent v off (Some 0) t = Inr ((new_event t)\<lparr>ev_type := Some Unknown, ev_bytesRead := 1\<rparr>)"
  using assms
  by (simp add: parseEvent_def parseMessage_def js_int32_def Let_def)

lemma running_status_after_snoc:
  "running_status_after (evs @ [e])
     = (if sets_running_status e then ev_status e else running_status_after evs)"
  by (simp add: running_status_after_def)

lemma time_after_snoc: "time_after (evs @ [e]) = ev_time e"
  by (simp add: time_after_def)

lemma offset_after_snoc:
  "offset_after v start (evs @ [e])
     = offset_after v start evs + delta_bytes v (offset_after v start evs) + ev_bytesRead e"
  by (simp add: offset_after_def)

lemma parseMeta_time: "parseMeta v off k ev = Inr e \<Longrightarrow> ev_time e = ev_time ev"
  by (auto simp: parseMeta_def bindE_def Let_def split: sum.splits if_splits)

lemma parseMessage_time: "parseMessage v off st k ev = Inr e \<Longrightarrow> ev_time e = ev_time ev"
  by (auto simp: parseMessage_def bindE_def Let_def split: sum.splits if_splits
      dest: parseMeta_time)

lemma parseEvent_time: "parseEvent v off rs t = Inr e \<Longrightarrow> ev_time e = t"
  by (auto simp: parseEvent_def bindE_def new_event_def split: sum.splits if_splits
      dest: parseMessage_time)

lemma decoded_at_append:
  "i < length evs \<Longrightarrow>
     decoded_at v start trackEnd (evs @ es) i = decoded_at v start trackEnd evs i"
  by (simp add: decoded_at_def nth_append Let_def split: sum.splits)

lemma decoded_at_snoc:
  assumes "offset_after v start evs < trackEnd"
    and "readVariableLength v (offset_after v start evs) = Inr dt"
    and "parseEvent v (offset_after v start evs + vl_bytesRead dt) (running_status_after evs)
           (time_after evs + vl_value dt) = Inr e"
  shows "decoded_at v start trackEnd (evs @ [e]) (length evs)"
  using assms by (simp add: decoded_at_def Let_def split: sum.splits)

lemma loop_sound:
  assumes "parseTrack_loop fuel v trackEnd (offset_after v start evs)
             (running_status_after evs) (time_after evs) evs = Some (Inr r)"
    and "\<forall>i<length evs. decoded_at v start trackEnd evs i"
  shows "decoded_track v start trackEnd r \<and> length r < fuel + length evs"
  using assms
proof (induction fuel arbitrary: evs)
  case 0
  then show ?case by simp
next
  case (Suc fuel)
  show ?case
  proof (cases "offset_after v start evs < trackEnd")
    case False
    with Suc.prems show ?thesis
      by (simp add: decoded_track_def)
  next
    case True
    from Suc.prems(1) True obtain dt where
      dt: "readVariableLength v (offset_after v start evs) = Inr dt"
      by (cases "readVariableLength v (offset_after v start evs)") auto
    from Suc.prems(1) True dt obtain e where
      e: "parseEvent v (offset_after v start evs + vl_bytesRead dt) (running_status_after evs)
            (time_after evs + vl_value dt) = Inr e"
      by (cases "parseEvent v (offset_after v start evs + vl_bytesRead dt)
                   (running_status_after evs) (time_after evs + vl_value dt)")
         (auto simp: Let_def)
    have t: "ev_time e = time_after evs + vl_value dt"
      using e by (rule parseEvent_time)
    have loop: "parseTrack_loop fuel v trackEnd (offset_after v start (evs @ [e]))
                  (running_status_after (evs @ [e])) (time_after (evs @ [e])) (evs @ [e])
                = Some (Inr r)"
      using Suc.prems(1) True dt e t
      by (simp add: Let_def offset_after_snoc running_status_after_snoc time_after_snoc
          delta_bytes_def sets_running_status_def)
    have "\<forall>i<length (evs @ [e]). decoded_at v start trackEnd (evs @ [e]) i"
    proof (intro allI impI)
      fix i assume "i < length (evs @ [e])"
      then consider "i < length evs" | "i = length evs" by fastforce
      then show "decoded_at v start trackEnd (evs @ [e]) i"
      proof cases
        case 1
        with Suc.prems(2) show ?thesis by (simp add: decoded_at_append)
      next
        case 2
        with decoded_at_snoc [OF True dt e] show ?thesis by simp
      qed
    qed
    from Suc.IH [OF loop this] show ?thesis by simp
  qed
qed

lemma loop_complete:
  assumes "decoded_track v start trackEnd (evs @ es)" and "length es < fuel"
  shows "parseTrack_loop fuel v trackEnd (offset_after v start evs)
           (running_status_after evs) (time_after evs) evs = Some (Inr (evs @ es))"
  using assms
proof (induction es arbitrary: evs fuel)
  case Nil
  then obtain k where "fuel = Suc k" by (cases fuel) auto
  with Nil show ?case by (simp add: decoded_track_def)
next
  case (Cons e es)
  from Cons.prems(2) obtain k where k: "fuel = Suc k" "length es < k"
    by (cases fuel) auto
  from Cons.prems(1) have "decoded_at v start trackEnd (evs @ e # es) (length evs)"
    by (simp add: decoded_track_def)
  then have lt: "offset_after v start evs < trackEnd"
    and rd: "case readVariableLength v (offset_after v start evs) of
               Inl x \<Rightarrow> False
             | Inr dt \<Rightarrow>
                 parseEvent v (offset_after v start evs + vl_bytesRead dt)
                   (running_status_after evs) (time_after evs + vl_value dt) = Inr e"
    by (simp_all add: decoded_at_def Let_def split: sum.splits)
  from rd obtain dt where
    dt: "readVariableLength v (offset_after v start evs) = Inr dt"
    and e: "parseEvent v (offset_after v start evs + vl_bytesRead dt)
              (running_status_after evs) (time_after evs + vl_value dt) = Inr e"
    by (cases "readVariableLength v (offset_after v start evs)") auto
  have t: "ev_time e = time_after evs + vl_value dt"
    using e by (rule parseEvent_time)
  from Cons.prems(1) have "decoded_track v start trackEnd ((evs @ [e]) @ es)" by simp
  from Cons.IH [OF this k(2)]
  have "parseTrack_loop k v trackEnd (offset_after v start (evs @ [e]))
          (running_status_after (evs @ [e])) (time_after (evs @ [e])) (evs @ [e])
        = Some (Inr (evs @ e # es))"
    by simp
  then show ?case
    using lt dt e t k(1)
    by (simp add: Let_def offset_after_snoc running_status_after_snoc time_after_snoc
        delta_bytes_def sets_running_status_def)
qed

lemma parseTrackChunk_decoded:
  assumes "readString v off 4 = Inr ''MTrk''" and "getUint32 v (off + 4) = Inr len"
  shows "parseTrackChunk fuel v off = Some (Inr \<lparr>tr_length = n, tr_events = evs\<rparr>)
         \<longleftrightarrow> n = len \<and> length evs < fuel
             \<and> decoded_track v (off + 8) (off + 8 + int len) evs"
proof
  assume "parseTrackChunk fuel v off = Some (Inr \<lparr>tr_length = n, tr_events = evs\<rparr>)"
  with assms have n: "n = len"
    and l: "parseTrack_loop fuel v (off + 8 + int len) (off + 8) (Some 0) 0 [] = Some (Inr evs)"
    by (auto simp: parseTrackChunk_def split: option.splits sum.splits)
  from l have "parseTrack_loop fuel v (off + 8 + int len) (offset_after v (off + 8) [])
                 (running_status_after []) (time_after []) [] = Some (Inr evs)"
    by (simp add: offset_after_def running_status_after_def time_after_def)
  from loop_sound [OF this] n
  show "n = len \<and> length evs < fuel \<and> decoded_track v (off + 8) (off + 8 + int len) evs"
    by simp
next
  assume a: "n = len \<and> length evs < fuel
             \<and> decoded_track v (off + 8) (off + 8 + int len) evs"
  then have "decoded_track v (off + 8) (off + 8 + int len) ([] @ evs)" by simp
  from loop_complete [OF this, of fuel] a
  have "parseTrack_loop fuel v (off + 8 + int len) (off + 8) (Some 0) 0 [] = Some (Inr evs)"
    by (simp add: offset_after_def running_status_after_def time_after_def)
  with assms a show "parseTrackChunk fuel v off = Some (Inr \<lparr>tr_length = n, tr_events = evs\<rparr>)"
    by (simp add: parseTrackChunk_def)
qed

lemma parseMessage_channel:
  assumes "parseMessage v off st k (new_event t) = Inr e" and "sets_running_status e"
  shows "\<exists>s. ev_status e = Some s \<and> channel_status s"
proof (cases "st = Some 0xFF")
  case True
  with assms(1) have "parseMeta v off k (new_event t) = Inr e"
    by (simp add: parseMessage_def Let_def js_int32_def)
  from parseMeta_keeps_status [OF this] assms(2) show ?thesis
    by (auto simp: new_event_def sets_running_status_def)
next
  case False
  with assms show ?thesis
    by (cases st)
       (auto simp: parseMessage_def bindE_def Let_def js_int32_def channel_status_def
          sets_running_status_def split: sum.splits if_splits)
qed

lemma parseEvent_channel:
  assumes "parseEvent v off rs t = Inr e" and "sets_running_status e"
  shows "\<exists>s. ev_status e = Some s \<and> channel_status s"
  using assms parseMessage_channel [of v off _ _ t e]
  by (auto simp: parseEvent_def bindE_def split: sum.splits if_splits)

lemma decoded_track_status:
  assumes "decoded_track v start trackEnd evs"
  shows "running_status_after (take i evs) = Some 0
         \<or> (\<exists>s. running_status_after (take i evs) = Some s \<and> channel_status s)"
proof (cases "filter sets_running_status (take i evs) = []")
  case True
  then show ?thesis by (simp add: running_status_after_def)
next
  case False
  define e where "e = last (filter sets_running_status (take i evs))"
  from False have "e \<in> set (filter sets_running_status (take i evs))"
    unfolding e_def by (rule last_in_set)
  then have s: "sets_running_status e" and "e \<in> set (take i evs)" by simp_all
  then have "e \<in> set evs" by (auto dest: in_set_takeD)
  then obtain j where j: "j < length evs" "evs ! j = e"
    by (auto simp: in_set_conv_nth)
  with assms have "decoded_at v start trackEnd evs j"
    by (simp add: decoded_track_def)
  with j(2) obtain off rs t where "parseEvent v off rs t = Inr e"
    by (auto simp: decoded_at_def Let_def split: sum.splits)
  from parseEvent_channel [OF this s] False show ?thesis
    by (simp add: running_status_after_def e_def)
qed

text \<open>
  Claim C3, as the code has it. When the first byte of an event is below 0x80, \<open>parseEvent\<close>
  takes the caller's running status for the status and reads the data bytes from the offset
  itself: under the running status 0, which \<open>parseTrackChunk\<close> starts from, the event is an
  unknown one of one byte; under a running status \<open>s\<close> with high nibble 8, 9 or 11 the data
  bytes \<open>x y\<close> give the event that the three bytes \<open>s x y\<close> give under any running status,
  with \<open>bytesRead\<close> 2 instead of 3. For a chunk that starts with \<open>MTrk\<close> and a length,
  \<open>parseTrackChunk\<close> returns the track of length \<open>n\<close> with the events \<open>evs\<close> exactly when
  \<open>n\<close> is the length read, the fuel exceeds the number of events, the list ends where the
  track does, and every event \<open>i\<close> of it is what \<open>parseEvent\<close> returns behind its delta time
  under the running status in force after the first \<open>i\<close> events. That running status is the
  status of the last noteOn, noteOff or controlChange event among them, and 0 when there is
  none: it changes at these three kinds of event and at no other, and it is always 0 or a
  status with high nibble 8, 9 or 11.
\<close>

theorem running_status:
  "(getUint8 v off = Inr x \<longrightarrow> x < 0x80 \<longrightarrow>
      parseEvent v off (Some 0) t
        = Inr ((new_event t)\<lparr>ev_type := Some Unknown, ev_bytesRead := 1\<rparr>))
   \<and> (channel_status s \<longrightarrow> getUint8 v off = Inr x \<longrightarrow> x < 0x80 \<longrightarrow>
      getUint8 v (off + 1) = Inr y \<longrightarrow>
      parseEvent v off (Some s) t = Inr (channel_event t s x y 2))
   \<and> (channel_status s \<longrightarrow> getUint8 w pos = Inr s \<longrightarrow> getUint8 w (pos + 1) = Inr x \<longrightarrow>
      getUint8 w (pos + 2) = Inr y \<longrightarrow>
      parseEvent w pos rs t = Inr (channel_event t s x y 3))
   \<and> (readString b p 4 = Inr ''MTrk'' \<longrightarrow> getUint32 b (p + 4) = Inr len \<longrightarrow>
      (parseTrackChunk fuel b p = Some (Inr \<lparr>tr_length = n, tr_events = evs\<rparr>)
         \<longleftrightarrow> n = len \<and> length evs < fuel
             \<and> decoded_track b (p + 8) (p + 8 + int len) evs))
   \<and> (decoded_track b start trackEnd evs \<longrightarrow>
      running_status_after (take i evs) = Some 0
      \<or> (\<exists>s'. running_status_after (take i evs) = Some s' \<and> channel_status s'))"
  by (simp add: parseEvent_initial parseEvent_running parseEvent_own_status
      parseTrackChunk_decoded decoded_track_status)

text \<open>
  Instances: the data bytes 60 100 under the running statuses 0 and 0x90, the bytes
  0x90 60 100, and a track of two events whose second one is decoded with the status 0x90 of
  the first.
\<close>

theorem running_status_witness:
  "parseEvent [60, 100] 0 (Some 0) 5
     = Inr ((new_event 5)\<lparr>ev_type := Some Unknown, ev_bytesRead := 1\<rparr>)
   \<and> parseEvent [60, 100] 0 (Some 0x90) 5 = Inr (channel_event 5 0x90 60 100 2)
   \<and> parseEvent [0x90, 60, 100] 0 None 5 = Inr (channel_event 5 0x90 60 100 3)
   \<and> parseTrackChunk 3
         [0x4D, 0x54, 0x72, 0x6B, 0, 0, 0, 7, 0, 0x90, 60, 100, 10, 62, 100] 0
       = Some (Inr \<lparr>tr_length = 7,
                     tr_events = [channel_event 0 0x90 60 100 3,
                                  channel_event 10 0x90 62 100 2]\<rparr>)
   \<and> running_status_after
         (take 1 [channel_event 0 0x90 60 100 3, channel_event 10 0x90 62 100 2])
       = Some 0x90"
proof -
  have d: "decoded_track
             [0x4D, 0x54, 0x72, 0x6B, 0, 0, 0, 7, 0, 0x90, 60, 100, 10, 62, 100] 8 15
             [channel_event 0 0x90 60 100 3, channel_event 10 0x90 62 100 2]"
    by (simp add: decoded_track_def decoded_at_def All_less_Suc offset_after_def
        delta_bytes_def readVariableLength_eq base128_def base128_step_def toInt32_def
        running_status_after_def sets_running_status_def time_after_def channel_event_def
        parseEvent_def parseMessage_def getUint8_def js_int32_def new_event_def)
  have h:
    "readString [0x4D, 0x54, 0x72, 0x6B, 0, 0, 0, 7, 0, 0x90, 60, 100, 10, 62, 100] 0 4
       = Inr ''MTrk''"
    "getUint32 [0x4D, 0x54, 0x72, 0x6B, 0, 0, 0, 7, 0, 0x90, 60, 100, 10, 62, 100] 4
       = Inr 7"
    by (simp_all add: readString_eq getUint32_def char_of_def bit_0)
  have g: "getUint8 [60, 100] 0 = Inr 60" "getUint8 [60, 100] 1 = Inr 100"
    "getUint8 [0x90, 60, 100] 0 = Inr 0x90" "getUint8 [0x90, 60, 100] 1 = Inr 60"
    "getUint8 [0x90, 60, 100] 2 = Inr 100" "channel_status 0x90"
    by (simp_all add: getUint8_def channel_status_def)
  from running_status [where v = "[60, 100]" and off = 0 and x = 60 and y = 100
      and s = "0x90" and t = 5 and w = "[0x90, 60, 100]" and pos = 0 and rs = None
      and b = "[0x4D, 0x54, 0x72, 0x6B, 0, 0, 0, 7, 0, 0x90, 60, 100, 10, 62, 100]"
      and p = 0 and len = 7 and fuel = 3 and n = 7
      and evs = "[channel_event 0 0x90 60 100 3, channel_event 10 0x90 62 100 2]"
      and start = 8 and trackEnd = 15 and i = 1] d h g
  show ?thesis
    by (simp add: running_status_after_def sets_running_status_def channel_event_def)
qed

text \<open>
  Claim C3 as stated, with the most recent status byte as the status of an event that has
  none, fails after a status byte of another kind of event. In the track
  0x90 60 100, 0xC0 5, 62 100 (each behind a delta time of 0) the most recent status byte
  before the data bytes 62 100 is 0xC0, at offset 13. The program change is read as an unknown
  event of two bytes and leaves the running status alone, so the third event is a noteOn with
  status 0x90, where decoding with 0xC0 gives an unknown event of one byte.
\<close>

theorem running_status_counterexample:
  "parseTrackChunk 4
       [0x4D, 0x54, 0x72, 0x6B, 0, 0, 0, 10, 0, 0x90, 60, 100, 0, 0xC0, 5, 0, 62, 100] 0
     = Some (Inr \<lparr>tr_length = 10, tr_events =
         [(new_event 0)\<lparr>ev_type := Some NoteOn, ev_channel := Some 0, ev_note := Some 60,
            ev_velocity := Some 100, ev_status := Some 0x90, ev_bytesRead := 3\<rparr>,
          (new_event 0)\<lparr>ev_type := Some Unknown, ev_bytesRead := 2\<rparr>,
          (new_event 0)\<lparr>ev_type := Some NoteOn, ev_channel := Some 0, ev_note := Some 62,
            ev_velocity := Some 100, ev_status := Some 0x90, ev_bytesRead := 2\<rparr>]\<rparr>)
   \<and> getUint8 [0x4D, 0x54, 0x72, 0x6B, 0, 0, 0, 10, 0, 0x90, 60, 100, 0, 0xC0, 5, 0, 62, 100]
         13 = Inr 0xC0
   \<and> getUint8 [0x4D, 0x54, 0x72, 0x6B, 0, 0, 0, 10, 0, 0x90, 60, 100, 0, 0xC0, 5, 0, 62, 100]
         16 = Inr 62
   \<and> parseEvent [0x4D, 0x54, 0x72, 0x6B, 0, 0, 0, 10, 0, 0x90, 60, 100, 0, 0xC0, 5, 0, 62, 100]
         16 (Some 0xC0) 0
       = Inr ((new_event 0)\<lparr>ev_type := Some Unknown, ev_bytesRead := 1\<rparr>)"
proof -
  have "decoded_track
          [0x4D, 0x54, 0x72, 0x6B, 0, 0, 0, 10, 0, 0x90, 60, 100, 0, 0xC0, 5, 0, 62, 100] 8 18
          [(new_event 0)\<lparr>ev_type := Some NoteOn, ev_channel := Some 0, ev_note := Some 60,
             ev_velocity := Some 100, ev_status := Some 0x90, ev_bytesRead := 3\<rparr>,
           (new_event 0)\<lparr>ev_type := Some Unknown, ev_bytesRead := 2\<rparr>,
           (new_event 0)\<lparr>ev_type := Some NoteOn, ev_channel := Some 0, ev_note := Some 62,
             ev_velocity := Some 100, ev_status := Some 0x90, ev_bytesRead := 2\<rparr>]"
    by (simp add: decoded_track_def decoded_at_def All_less_Suc offset_after_def
        delta_bytes_def readVariableLength_eq base128_def base128_step_def toInt32_def
        running_status_after_def sets_running_status_def time_after_def
        parseEvent_def parseMessage_def getUint8_def js_int32_def new_event_def)
  moreover have
    "readString [0x4D, 0x54, 0x72, 0x6B, 0, 0, 0, 10, 0, 0x90, 60, 100, 0, 0xC0, 5, 0, 62, 100]
       0 4 = Inr ''MTrk''"
    "getUint32 [0x4D, 0x54, 0x72, 0x6B, 0, 0, 0, 10, 0, 0x90, 60, 100, 0, 0xC0, 5, 0, 62, 100]
       4 = Inr 10"
    by (simp_all add: readString_eq getUint32_def char_of_def bit_0)
  ultimately show ?thesis
    by (simp add: parseTrackChunk_decoded [where len = 10] parseEvent_def parseMessage_def
        getUint8_def js_int32_def)
qed

section \<open>Properties of the keyboard\<close>

lemma js_set_inside: "i < length xs \<Longrightarrow> js_set xs i x = xs[i := x]"
  by (simp add: js_set_def)

lemma midiNoteOf_C4: "midiNoteOf ''C'' 4 = Inr (Some 60)"
  by (simp add: midiNoteOf_def noteToMidi_def)

lemma pressKey_inside:
  assumes "midiNoteOf note (currentOctave kb + octaveOffset) = Inr (Some m)"
    and "12 \<le> m" "m \<le> 125"
    and "(note, currentOctave kb + octaveOffset) \<notin> physicallyPressed kb"
    and "m - 12 < length (keyStates kb)"
  shows "pressKey kb note octaveOffset =
     Inr (kb\<lparr>physicallyPressed :=
                insert (note, currentOctave kb + octaveOffset) (physicallyPressed kb),
              keyStates := (keyStates kb)[m - 12 := True]\<rparr>)"
  using assms by (simp add: pressKey_def Let_def js_set_inside)

lemma releaseKey_inside:
  assumes "midiNoteOf note (currentOctave kb + octaveOffset) = Inr (Some m)"
    and "12 \<le> m" "m \<le> 125"
    and "(note, currentOctave kb + octaveOffset) \<in> physicallyPressed kb"
    and "m - 12 < length (keyStates kb)"
  shows "releaseKey kb note octaveOffset =
     Inr (kb\<lparr>physicallyPressed :=
                physicallyPressed kb - {(note, currentOctave kb + octaveOffset)},
              keyStates := (if sustainMode kb then keyStates kb
                            else (keyStates kb)[m - 12 := False])\<rparr>)"
  using assms by (simp add: releaseKey_def Let_def js_set_inside)

text \<open>
  Claim C10, as the code has it. Take a note name and an octave offset whose MIDI number
  \<open>m\<close> lies in 12..125, sustain off, the key not in \<open>physicallyPressed\<close>, and the array
  \<open>keyStates\<close> at the 114 entries the constructor gives it. Then \<open>pressKey\<close> followed by
  \<open>releaseKey\<close> for the same note and offset restores \<open>physicallyPressed\<close>, leaves the octave
  and the sustain toggle alone, and sets the entry \<open>m - 12\<close> of \<open>keyStates\<close> to \<open>false\<close>: no
  other entry changes, and \<open>keyStates\<close> is restored exactly when that entry was \<open>false\<close>
  before the press.
\<close>

theorem press_release:
  assumes "midiNoteOf note (currentOctave kb + octaveOffset) = Inr (Some m)"
    and "12 \<le> m" "m \<le> 125"
    and "\<not> sustainMode kb"
    and "(note, currentOctave kb + octaveOffset) \<notin> physicallyPressed kb"
    and "length (keyStates kb) = 114"
  shows "\<exists>kb1 kb2. pressKey kb note octaveOffset = Inr kb1
           \<and> releaseKey kb1 note octaveOffset = Inr kb2
           \<and> physicallyPressed kb2 = physicallyPressed kb
           \<and> keyStates kb2 = (keyStates kb)[m - 12 := False]
           \<and> (keyStates kb2 = keyStates kb \<longleftrightarrow> \<not> keyStates kb ! (m - 12))
           \<and> (\<forall>i. i \<noteq> m - 12 \<longrightarrow> keyStates kb2 ! i = keyStates kb ! i)
           \<and> currentOctave kb2 = currentOctave kb \<and> sustainMode kb2 = sustainMode kb"
proof -
  let ?k = "(note, currentOctave kb + octaveOffset)"
  let ?kb1 = "kb\<lparr>physicallyPressed := insert ?k (physicallyPressed kb),
                 keyStates := (keyStates kb)[m - 12 := True]\<rparr>"
  let ?kb2 = "kb\<lparr>physicallyPressed := physicallyPressed kb,
                 keyStates := (keyStates kb)[m - 12 := False]\<rparr>"
  have i: "m - 12 < length (keyStates kb)" using assms(3,6) by simp
  have p: "pressKey kb note octaveOffset = Inr ?kb1"
    using assms i by (simp add: pressKey_def Let_def js_set_inside)
  have "insert ?k (physicallyPressed kb) - {?k} = physicallyPressed kb"
    using assms(5) by auto
  then have r: "releaseKey ?kb1 note octaveOffset = Inr ?kb2"
    using assms i by (simp add: releaseKey_def Let_def js_set_inside)
  have "((keyStates kb)[m - 12 := False] = keyStates kb) \<longleftrightarrow> \<not> keyStates kb ! (m - 12)"
    using i by (simp add: list_update_same_conv)
  with p r show ?thesis by simp
qed

text \<open>On a fresh keyboard, C4 pressed and released leaves nothing pressed and nothing on.\<close>

theorem press_release_witness:
  "\<exists>kb1 kb2. pressKey new_keyboard ''C'' 0 = Inr kb1 \<and> releaseKey kb1 ''C'' 0 = Inr kb2
      \<and> physicallyPressed kb2 = {} \<and> keyStates kb2 = replicate 114 False"
proof -
  have "midiNoteOf ''C'' (currentOctave new_keyboard + 0) = Inr (Some 60)"
    by (simp add: new_keyboard_def midiNoteOf_C4)
  from press_release [OF this] obtain kb1 kb2 where
    "pressKey new_keyboard ''C'' 0 = Inr kb1" "releaseKey kb1 ''C'' 0 = Inr kb2"
    "physicallyPressed kb2 = physicallyPressed new_keyboard"
    "keyStates kb2 = keyStates new_keyboard \<longleftrightarrow> \<not> keyStates new_keyboard ! (60 - 12)"
    by (auto simp: new_keyboard_def)
  then show ?thesis
    by (auto simp: new_keyboard_def)
qed

text \<open>
  Claim C10 as stated fails when the key's note is still sounding from a sustain: with
  sustain on, C4 is pressed and released, which leaves its entry \<open>true\<close>; sustain is switched
  off; now C4 is not in \<open>physicallyPressed\<close>, and pressing and releasing it ends with its
  entry \<open>false\<close>, not with the \<open>true\<close> it had before the press.
\<close>

theorem press_release_counterexample:
  "pressKey (toggleSustain new_keyboard) ''C'' 0
     = Inr (new_keyboard\<lparr>sustainMode := True, keyStates := (replicate 114 False)[48 := True],
              physicallyPressed := {(''C'', 4)}\<rparr>)
   \<and> releaseKey (new_keyboard\<lparr>sustainMode := True,
              keyStates := (replicate 114 False)[48 := True],
              physicallyPressed := {(''C'', 4)}\<rparr>) ''C'' 0
     = Inr (new_keyboard\<lparr>sustainMode := True, keyStates := (replicate 114 False)[48 := True]\<rparr>)
   \<and> toggleSustain
        (new_keyboard\<lparr>sustainMode := True, keyStates := (replicate 114 False)[48 := True]\<rparr>)
     = new_keyboard\<lparr>keyStates := (replicate 114 False)[48 := True]\<rparr>
   \<and> pressKey (new_keyboard\<lparr>keyStates := (replicate 114 False)[48 := True]\<rparr>) ''C'' 0
     = Inr (new_keyboard\<lparr>keyStates := (replicate 114 False)[48 := True],
              physicallyPressed := {(''C'', 4)}\<rparr>)
   \<and> releaseKey (new_keyboard\<lparr>keyStates := (replicate 114 False)[48 := True],
              physicallyPressed := {(''C'', 4)}\<rparr>) ''C'' 0
     = Inr new_keyboard
   \<and> keyStates new_keyboard
       \<noteq> keyStates (new_keyboard\<lparr>keyStates := (replicate 114 False)[48 := True]\<rparr>)"
proof -
  have ne: "(replicate 114 False)[48 := True] \<noteq> replicate 114 False"
    by (simp add: list_update_same_conv)
  have e1: "(replicate 114 False)[48 := False] = replicate 114 False"
    by (simp add: list_update_same_conv)
  have p1: "pressKey (toggleSustain new_keyboard) ''C'' 0
     = Inr (new_keyboard\<lparr>sustainMode := True, keyStates := (replicate 114 False)[48 := True],
              physicallyPressed := {(''C'', 4)}\<rparr>)"
    by (subst pressKey_inside [where m = 60])
       (simp_all add: midiNoteOf_C4 new_keyboard_def toggleSustain_def)
  have r1: "releaseKey (new_keyboard\<lparr>sustainMode := True,
              keyStates := (replicate 114 False)[48 := True],
              physicallyPressed := {(''C'', 4)}\<rparr>) ''C'' 0
     = Inr (new_keyboard\<lparr>sustainMode := True, keyStates := (replicate 114 False)[48 := True]\<rparr>)"
    by (subst releaseKey_inside [where m = 60])
       (simp_all add: midiNoteOf_C4 new_keyboard_def)
  have p2: "pressKey (new_keyboard\<lparr>keyStates := (replicate 114 False)[48 := True]\<rparr>) ''C'' 0
     = Inr (new_keyboard\<lparr>keyStates := (replicate 114 False)[48 := True],
              physicallyPressed := {(''C'', 4)}\<rparr>)"
    by (subst pressKey_inside [where m = 60])
       (simp_all add: midiNoteOf_C4 new_keyboard_def)
  have r2: "releaseKey (new_keyboard\<lparr>keyStates := (replicate 114 False)[48 := True],
              physicallyPressed := {(''C'', 4)}\<rparr>) ''C'' 0
     = Inr new_keyboard"
    by (subst releaseKey_inside [where m = 60])
       (simp_all add: midiNoteOf_C4 new_keyboard_def e1)
  have t: "toggleSustain
        (new_keyboard\<lparr>sustainMode := True, keyStates := (replicate 114 False)[48 := True]\<rparr>)
     = new_keyboard\<lparr>keyStates := (replicate 114 False)[48 := True]\<rparr>"
    by (simp add: toggleSustain_def new_keyboard_def)
  have n: "keyStates new_keyboard
       \<noteq> keyStates (new_keyboard\<lparr>keyStates := (replicate 114 False)[48 := True]\<rparr>)"
    using ne by (simp add: new_keyboard_def)
  from p1 r1 t p2 r2 n show ?thesis by (intro conjI)
qed

section \<open>Properties of the player\<close>

subsection \<open>Active notes and key states\<close>

text \<open>
  \<open>processEvent\<close>, \<open>pause\<close>, \<open>stop\<close> and \<open>reset\<close> write \<open>keyStates\<close> whenever they write
  \<open>activeNotes\<close>, and keep the two in step; \<open>load\<close> ends in \<open>reset\<close>.
\<close>

lemma synced_clear:
  "length (keyStates (virtualKeyboard s)) = 114 \<Longrightarrow> activeNotes s = {}
     \<Longrightarrow> synced (clearKeyStates s)"
  by (auto simp: synced_def clearKeyStates_def)

lemma synced_setKeyState:
  assumes "synced s"
  shows "synced (setKeyState (Some n) x (s\<lparr>activeNotes := (if x then insert (Some n) (activeNotes s)
                                                           else activeNotes s - {Some n})\<rparr>))"
proof (cases "12 \<le> n \<and> n \<le> 125")
  case False
  with assms show ?thesis
    by (auto simp: synced_def setKeyState_def)
next
  case True
  then have i: "n - 12 < length (keyStates (virtualKeyboard s))"
    using assms by (auto simp: synced_def)
  have d: "\<And>k. 12 \<le> k \<Longrightarrow> k \<noteq> n \<Longrightarrow> k - 12 \<noteq> n - 12"
    using True by linarith
  show ?thesis
    using assms True i d
    by (auto simp: synced_def setKeyState_def js_set_def nth_list_update)
qed

lemma synced_processEvent: "synced s \<Longrightarrow> synced (processEvent e s)"
proof (cases "pe_note e")
  case None
  assume "synced s"
  then show ?thesis
    using None by (auto simp: processEvent_def setKeyState_def synced_def)
next
  case (Some n)
  assume s: "synced s"
  from synced_setKeyState [OF s, of n True] synced_setKeyState [OF s, of n False] s
  show ?thesis
    using Some by (simp add: processEvent_def)
qed

lemma synced_reset: "synced s \<Longrightarrow> synced (reset s)"
  by (auto simp: synced_def reset_def clearKeyStates_def)

lemma synced_stop: "synced s \<Longrightarrow> synced (stop s)"
  by (auto simp: synced_def stop_def reset_def clearKeyStates_def)

lemma synced_pause: "synced s \<Longrightarrow> synced (pause s)"
  by (auto simp: synced_def pause_def clearKeyStates_def)

lemma synced_load: "length (keyStates (virtualKeyboard s)) = 114 \<Longrightarrow> synced (load evs s)"
  by (auto simp: load_def reset_def applyTrackFilter_def Let_def intro!: synced_clear)

text \<open>
  Claim C6 does not hold of \<open>seek\<close>, which clears and refills \<open>activeNotes\<close> and never
  touches \<open>keyStates\<close>. A player is loaded with note 60 on at 0 s and off at 1 s, which
  leaves it reset: no active note, every key state \<open>false\<close>. After \<open>seek(0.5)\<close> note 60 is in
  \<open>activeNotes\<close> and \<open>keyStates[48]\<close> is still \<open>false\<close>.
\<close>

theorem seek_leaves_keyStates:
  "activeNotes (load [noteOn_at 60 0, noteOff_at 60 1] (new_player new_keyboard)) = {}
   \<and> keyStates (virtualKeyboard
         (load [noteOn_at 60 0, noteOff_at 60 1] (new_player new_keyboard)))
       = replicate 114 False
   \<and> Some 60 \<in> activeNotes
        (seek 0 (1 / 2) (load [noteOn_at 60 0, noteOff_at 60 1] (new_player new_keyboard)))
   \<and> \<not> keyStates (virtualKeyboard
        (seek 0 (1 / 2) (load [noteOn_at 60 0, noteOff_at 60 1] (new_player new_keyboard))))
       ! (60 - 12)"
proof (intro conjI)
  show "activeNotes (load [noteOn_at 60 0, noteOff_at 60 1] (new_player new_keyboard)) = {}"
    by (simp add: load_def reset_def clearKeyStates_def)
  show "keyStates (virtualKeyboard
         (load [noteOn_at 60 0, noteOff_at 60 1] (new_player new_keyboard)))
       = replicate 114 False"
    by (simp add: load_def reset_def clearKeyStates_def applyTrackFilter_def Let_def
        new_player_def new_keyboard_def)
  show "Some 60 \<in> activeNotes
        (seek 0 (1 / 2) (load [noteOn_at 60 0, noteOff_at 60 1] (new_player new_keyboard)))"
    by code_simp
  show "\<not> keyStates (virtualKeyboard
        (seek 0 (1 / 2) (load [noteOn_at 60 0, noteOff_at 60 1] (new_player new_keyboard))))
       ! (60 - 12)"
    by code_simp
qed

subsection \<open>The minimum note duration\<close>

text \<open>
  Claim C8 does not hold of \<open>applyTrackFilter\<close>. Note 60 is on at 0, off at 1/64 s, on again
  at 1/32 s and off at 1/2 s. The first note is shorter than 0.05 s, so its noteOff is moved
  to 0.05 s, behind the second noteOn; after the last sort the first noteOff that follows the
  noteOn at 1/32 s is that moved one, 3/160 s later, which is less than 0.05 s.
\<close>

theorem extended_noteOff_cuts_next_note:
  "events (applyTrackFilter AllTracks
       [noteOn_at 60 0, noteOff_at 60 (1 / 64), noteOn_at 60 (1 / 32), noteOff_at 60 (1 / 2)]
       (new_player new_keyboard))
     = [noteOn_at 60 0, noteOn_at 60 (1 / 32), noteOff_at 60 (1 / 20), noteOff_at 60 (1 / 2)]
   \<and> find_noteOff
        [noteOn_at 60 0, noteOn_at 60 (1 / 32), noteOff_at 60 (1 / 20), noteOff_at 60 (1 / 2)]
        (Some 60) 2 = Some 2
   \<and> pe_seconds (noteOff_at 60 (1 / 20)) - pe_seconds (noteOn_at 60 (1 / 32)) = 3 / 160
   \<and> (3 / 160 :: rat) < 1 / 20"
  by code_simp

subsection \<open>The playback loop\<close>

lemma insort_cmp_seconds: "insort_cmp cmp_seconds x ys = insort_key pe_seconds x ys"
  by (induction ys) (simp_all add: cmp_seconds_def)

lemma js_sort_seconds: "js_sort cmp_seconds xs = sort_key pe_seconds xs"
  by (induction xs) (simp_all add: js_sort_def insort_cmp_seconds)

lemma applyTrackFilter_sorted:
  "sorted (map pe_seconds (events (applyTrackFilter tf allEvents s)))"
  by (simp add: applyTrackFilter_def Let_def js_sort_seconds)

lemma fold_max_ge: "(a::rat) \<le> fold max xs a \<and> (\<forall>x\<in>set xs. x \<le> fold max xs a)"
proof (induction xs arbitrary: a)
  case Nil
  then show ?case by simp
next
  case (Cons x xs)
  from Cons.IH [of "max x a"] show ?case by auto
qed

lemma fold_max_in: "fold max xs (a::rat) \<in> insert a (set xs)"
proof (induction xs arbitrary: a)
  case Nil
  then show ?case by simp
next
  case (Cons x xs)
  from Cons.IH [of "max x a"] show ?case by (auto simp: max_def split: if_splits)
qed

lemma maxSeconds_Max:
  "evs \<noteq> [] \<Longrightarrow> maxSeconds evs = Max (set (map pe_seconds evs))"
proof -
  assume "evs \<noteq> []"
  then obtain e es where evs: "evs = e # es" by (cases evs) auto
  let ?m = "fold max (map pe_seconds es) (pe_seconds e)"
  have "?m \<in> set (map pe_seconds evs)"
    using fold_max_in [of "map pe_seconds es" "pe_seconds e"] evs by simp
  moreover have "\<forall>x\<in>set (map pe_seconds evs). x \<le> ?m"
    using fold_max_ge [of "pe_seconds e" "map pe_seconds es"] evs by simp
  ultimately have "Max (set (map pe_seconds evs)) = ?m"
    by (intro Max_eqI) auto
  then show ?thesis by (simp add: maxSeconds_def evs)
qed

lemma maxSeconds_ge: "e \<in> set evs \<Longrightarrow> pe_seconds e \<le> maxSeconds evs"
proof -
  assume e: "e \<in> set evs"
  then have "evs \<noteq> []" by auto
  from maxSeconds_Max [OF this] e show ?thesis by simp
qed

lemma processEvent_frame [simp]:
  "events (processEvent e s) = events s"
  "eventIndex (processEvent e s) = eventIndex s"
  "currentTime (processEvent e s) = currentTime s"
  "startTime (processEvent e s) = startTime s"
  "duration (processEvent e s) = duration s"
  "isPlaying (processEvent e s) = isPlaying s"
  "isPaused (processEvent e s) = isPaused s"
  by (simp_all add: processEvent_def setKeyState_def split: option.splits)

lemma update_loop_takeWhile:
  "update_loop s acc = (s', d) \<Longrightarrow>
     d = acc @ takeWhile (\<lambda>e. pe_seconds e \<le> currentTime s) (drop (eventIndex s) (events s))
     \<and> eventIndex s' = eventIndex s + (length d - length acc)
     \<and> events s' = events s \<and> currentTime s' = currentTime s \<and> startTime s' = startTime s
     \<and> duration s' = duration s \<and> isPlaying s' = isPlaying s \<and> isPaused s' = isPaused s"
proof (induction s acc arbitrary: s' d rule: update_loop.induct)
  case (1 s acc)
  show ?case
  proof (cases "eventIndex s < length (events s)
                \<and> pe_seconds (events s ! eventIndex s) \<le> currentTime s")
    case False
    then have "update_loop s acc = (s, acc)"
      by (subst update_loop.simps) auto
    with "1.prems" have "s' = s" "d = acc" by simp_all
    moreover have "takeWhile (\<lambda>e. pe_seconds e \<le> currentTime s)
                     (drop (eventIndex s) (events s)) = []"
    proof (cases "eventIndex s < length (events s)")
      case True
      then have "drop (eventIndex s) (events s)
                 = events s ! eventIndex s # drop (Suc (eventIndex s)) (events s)"
        by (simp add: Cons_nth_drop_Suc)
      with False True show ?thesis by simp
    next
      case False
      then show ?thesis by simp
    qed
    ultimately show ?thesis by simp
  next
    case True
    let ?e = "events s ! eventIndex s"
    let ?s1 = "(processEvent ?e s)\<lparr>eventIndex := eventIndex s + 1\<rparr>"
    from True have "update_loop s acc = update_loop ?s1 (acc @ [?e])"
      by (subst update_loop.simps) (simp add: Let_def)
    with "1.prems" have u: "update_loop ?s1 (acc @ [?e]) = (s', d)" by simp
    from "1.IH" [OF True refl u]
    have ih: "d = (acc @ [?e]) @ takeWhile (\<lambda>e. pe_seconds e \<le> currentTime ?s1)
                  (drop (eventIndex ?s1) (events ?s1))"
      "eventIndex s' = eventIndex ?s1 + (length d - length (acc @ [?e]))"
      "events s' = events ?s1" "currentTime s' = currentTime ?s1" "startTime s' = startTime ?s1"
      "duration s' = duration ?s1" "isPlaying s' = isPlaying ?s1" "isPaused s' = isPaused ?s1"
      by simp_all
    have dr: "drop (eventIndex s) (events s) = ?e # drop (Suc (eventIndex s)) (events s)"
      using True by (simp add: Cons_nth_drop_Suc)
    have "length acc < length d" using ih(1) by simp
    then show ?thesis
      using ih True by (simp add: dr)
  qed
qed


lemma sorted_takeWhile_filter:
  "sorted (map f xs) \<Longrightarrow>
     takeWhile (\<lambda>e. f e \<le> (t::rat)) xs = filter (\<lambda>e. f e \<le> t) xs"
proof (induction xs)
  case Nil
  then show ?case by simp
next
  case (Cons x xs)
  show ?case
  proof (cases "f x \<le> t")
    case True
    with Cons show ?thesis by simp
  next
    case False
    then have "\<forall>y\<in>set xs. \<not> f y \<le> t"
      using Cons.prems by auto
    then have "filter (\<lambda>e. f e \<le> t) xs = []"
      by (simp add: filter_empty_conv)
    with False show ?thesis by simp
  qed
qed

lemma stop_frame [simp]:
  "events (stop s) = events s" "isPlaying (stop s) = False" "eventIndex (stop s) = 0"
  "duration (stop s) = duration s"
  by (simp_all add: stop_def reset_def clearKeyStates_def)

lemma update_playing:
  assumes "isPlaying s" "\<not> isPaused s" "update now s = (s', d)"
  shows "d = takeWhile (\<lambda>e. pe_seconds e \<le> now - startTime s)
               (drop (eventIndex s) (events s))"
    and "events s' = events s" and "duration s' = duration s"
    and "now - startTime s < duration s \<Longrightarrow>
           isPlaying s' \<and> \<not> isPaused s' \<and> eventIndex s' = eventIndex s + length d"
    and "duration s \<le> now - startTime s \<Longrightarrow> \<not> isPlaying s'"
proof -
  let ?s0 = "s\<lparr>currentTime := now - startTime s\<rparr>"
  obtain s1 d1 where l: "update_loop ?s0 [] = (s1, d1)"
    by (cases "update_loop ?s0 []") auto
  note f = update_loop_takeWhile [OF l]
  have u: "(s', d) = (if duration s1 \<le> currentTime s1 then (stop s1, d1) else (s1, d1))"
    using assms by (simp add: update_def l)
  then have d: "d = d1" by (simp split: if_splits)
  show "d = takeWhile (\<lambda>e. pe_seconds e \<le> now - startTime s)
               (drop (eventIndex s) (events s))"
    using f d by simp
  show "events s' = events s" "duration s' = duration s"
    using u f by (simp_all split: if_splits)
  show "isPlaying s' \<and> \<not> isPaused s' \<and> eventIndex s' = eventIndex s + length d"
    if "now - startTime s < duration s"
    using that u f d assms(1,2) by (simp split: if_splits)
  show "\<not> isPlaying s'" if "duration s \<le> now - startTime s"
    using that u f by (simp split: if_splits)
qed

lemma update_idle:
  "\<not> isPlaying s \<or> isPaused s \<Longrightarrow> update now s = (s, [])"
  by (simp add: update_def)

lemma take_add_takeWhile:
  "take i xs @ takeWhile P (drop i xs) = take (i + length (takeWhile P (drop i xs))) xs"
proof -
  have "take (i + length (takeWhile P (drop i xs))) xs
        = take i xs @ take (length (takeWhile P (drop i xs))) (drop i xs)"
    by (rule take_add)
  also have "take (length (takeWhile P (drop i xs))) (drop i xs) = takeWhile P (drop i xs)"
    by (rule takeWhile_eq_take [symmetric])
  finally show ?thesis by (rule sym)
qed

lemma run_updates_prefix:
  "run_updates s nows = (s', d) \<Longrightarrow>
     (if isPlaying s \<and> \<not> isPaused s
      then prefix (take (eventIndex s) (events s) @ d) (events s)
      else d = [])"
proof (induction nows arbitrary: s s' d)
  case Nil
  then show ?case by (simp add: take_is_prefix)
next
  case (Cons now nows)
  obtain s1 d1 where u: "update now s = (s1, d1)" by (cases "update now s") auto
  obtain s2 d2 where r: "run_updates s1 nows = (s2, d2)" by (cases "run_updates s1 nows") auto
  from Cons.prems u r have d: "d = d1 @ d2" by simp
  note ih = Cons.IH [OF r]
  show ?case
  proof (cases "isPlaying s \<and> \<not> isPaused s")
    case False
    then have "s1 = s" "d1 = []" using u update_idle [of s now] by auto
    with ih False d show ?thesis by (simp add: take_is_prefix)
  next
    case True
    then have p: "isPlaying s" "\<not> isPaused s" by simp_all
    note up = update_playing [OF p u]
    let ?P = "\<lambda>e. pe_seconds e \<le> now - startTime s"
    have t: "take (eventIndex s) (events s) @ d1
             = take (eventIndex s + length d1) (events s)"
      unfolding up(1) by (rule take_add_takeWhile)
    show ?thesis
    proof (cases "now - startTime s < duration s")
      case True
      with up(4) have "isPlaying s1 \<and> \<not> isPaused s1"
        "eventIndex s1 = eventIndex s + length d1" by simp_all
      with ih up(2) have "prefix (take (eventIndex s + length d1) (events s) @ d2) (events s)"
        by simp
      then have "prefix ((take (eventIndex s) (events s) @ d1) @ d2) (events s)"
        by (simp only: t)
      then show ?thesis using p d by simp
    next
      case False
      then have "\<not> isPlaying s1" using up(5) by simp
      with ih have "d2 = []" by simp
      with t p d show ?thesis by (simp add: take_is_prefix)
    qed
  qed
qed


text \<open>
  Claim C5. Let the player hold the events and the duration that \<open>applyTrackFilter\<close> set,
  and be playing and not paused. Then an \<open>update\<close> at clock reading \<open>now\<close> hands to
  \<open>processEvent\<close>, in list order, exactly the events from \<open>eventIndex\<close> on whose \<open>seconds\<close> is
  at most the elapsed time \<open>now - startTime\<close>. While the elapsed time is below the duration the
  player keeps playing and the index has grown by the number of events dispatched; once the
  elapsed time has reached the duration the player has stopped. The duration is the largest
  \<open>seconds\<close> of the events (0 without events). And over a whole run, \<open>play\<close> followed by any
  number of updates, the events dispatched are a prefix of the event list: each event at
  most once, in order.
\<close>

theorem playback_in_order:
  assumes "events s = events (applyTrackFilter tf allEvents s0)"
    and "duration s = duration (applyTrackFilter tf allEvents s0)"
    and "isPlaying s" and "\<not> isPaused s"
    and "update now s = (s', dispatched)"
    and "\<not> isPaused p"
    and "run_updates (play start p) nows = (p', played)"
  shows "dispatched = filter (\<lambda>e. pe_seconds e \<le> now - startTime s)
                        (drop (eventIndex s) (events s))
       \<and> events s' = events s
       \<and> (now - startTime s < duration s \<longrightarrow>
            isPlaying s' \<and> eventIndex s \<le> eventIndex s'
            \<and> eventIndex s' = eventIndex s + length dispatched)
       \<and> (duration s \<le> now - startTime s \<longrightarrow> \<not> isPlaying s')
       \<and> duration s = (if events s = [] then 0 else Max (set (map pe_seconds (events s))))
       \<and> prefix played (events p)"
proof -
  note up = update_playing [OF assms(3,4,5)]
  have "sorted (map pe_seconds (events s))"
    unfolding assms(1) by (rule applyTrackFilter_sorted)
  then have "sorted (map pe_seconds (drop (eventIndex s) (events s)))"
    by (simp add: drop_map [symmetric] sorted_wrt_drop)
  from sorted_takeWhile_filter [OF this] up(1)
  have a: "dispatched = filter (\<lambda>e. pe_seconds e \<le> now - startTime s)
                        (drop (eventIndex s) (events s))"
    by simp
  have "duration s = maxSeconds (events s)"
    unfolding assms(1,2) by (simp add: applyTrackFilter_def Let_def)
  then have b: "duration s = (if events s = [] then 0 else Max (set (map pe_seconds (events s))))"
    using maxSeconds_Max [of "events s"] by (simp add: maxSeconds_def)
  have "isPlaying (play start p)" "\<not> isPaused (play start p)" "eventIndex (play start p) = 0"
    "events (play start p) = events p"
    using assms(6) by (simp_all add: play_def)
  with run_updates_prefix [OF assms(7)] have c: "prefix played (events p)"
    by simp
  from a b c up(2,4,5) show ?thesis by simp
qed

text \<open>
  A run over note 60 on at 0 s and off at 1 s, started at clock reading 10: the update at 10.5
  dispatches the noteOn, and the updates at 10.5, 11 and 12 together dispatch a prefix of the
  two events.
\<close>

theorem playback_in_order_witness:
  "snd (update (21 / 2)
         (play 10 (load [noteOn_at 60 0, noteOff_at 60 1] (new_player new_keyboard))))
     = [noteOn_at 60 0]
   \<and> prefix
       (snd (run_updates
              (play 10 (load [noteOn_at 60 0, noteOff_at 60 1] (new_player new_keyboard)))
              [21 / 2, 11, 12]))
       [noteOn_at 60 0, noteOff_at 60 1]"
proof -
  let ?p = "load [noteOn_at 60 0, noteOff_at 60 1] (new_player new_keyboard)"
  let ?s = "play 10 ?p"
  have h1: "events ?s = events (applyTrackFilter AllTracks [noteOn_at 60 0, noteOff_at 60 1]
                                  (new_player new_keyboard))"
    by code_simp
  have h2: "duration ?s = duration (applyTrackFilter AllTracks [noteOn_at 60 0, noteOff_at 60 1]
                                  (new_player new_keyboard))"
    by code_simp
  have h3: "isPlaying ?s" by code_simp
  have h4: "\<not> isPaused ?s" by code_simp
  have h5: "update (21 / 2) ?s = (fst (update (21 / 2) ?s), snd (update (21 / 2) ?s))"
    by simp
  have h6: "\<not> isPaused ?p" by code_simp
  have h7: "run_updates (play 10 ?p) [21 / 2, 11, 12]
            = (fst (run_updates (play 10 ?p) [21 / 2, 11, 12]),
               snd (run_updates (play 10 ?p) [21 / 2, 11, 12]))"
    by simp
  note t = playback_in_order [OF h1 h2 h3 h4 h5 h6 h7]
  have e1: "filter (\<lambda>e. pe_seconds e \<le> 21 / 2 - startTime ?s) (drop (eventIndex ?s) (events ?s))
            = [noteOn_at 60 0]"
    by code_simp
  have e2: "events ?p = [noteOn_at 60 0, noteOff_at 60 1]"
    by code_simp
  from t e1 e2 show ?thesis by simp
qed

section \<open>Properties of the curve generator\<close>

text \<open>
  Claim C7. A frequency is a positive number: the lists that reach \<open>createCurve\<close> hold the
  frequencies of the sounding pitches. For a non-empty list of frequencies \<open>createCurve\<close>
  returns a curve. Its axis frequencies are the first frequency, the second one (1.5 times
  the first if there is none) and the third one (twice the first if there is none); its
  ratios are these three divided by the smallest of them, so the smallest ratio is 1; and it
  has 2000 points, point \<open>i\<close> being \<open>(5 sin(r\<^sub>x t), 5 sin(r\<^sub>y t + \<pi>/4), 5 sin(r\<^sub>z t + \<pi>/2))\<close> at
  \<open>t = (i / 2000) \<pi> tRange\<close>.
\<close>

theorem createCurve_points:
  assumes "frequencies \<noteq> []" and "\<forall>f\<in>set frequencies. 0 < f"
  defines "x \<equiv> frequencies ! 0"
  defines "y \<equiv> (if 1 < length frequencies then frequencies ! 1 else frequencies ! 0 * 1.5)"
  defines "z \<equiv> (if 2 < length frequencies then frequencies ! 2 else frequencies ! 0 * 2)"
  defines "m \<equiv> min x (min y z)"
  shows "\<exists>c. createCurve tRange frequencies = Some c
           \<and> cv_frequencies c = (x, y, z)
           \<and> cv_ratios c = (x / m, y / m, z / m)
           \<and> min (x / m) (min (y / m) (z / m)) = 1
           \<and> length (cv_points c) = 2000
           \<and> (\<forall>i<2000. cv_points c ! i =
                 (5 * sin (x / m * (real i / 2000 * pi * tRange)),
                  5 * sin (y / m * (real i / 2000 * pi * tRange) + pi / 4),
                  5 * sin (z / m * (real i / 2000 * pi * tRange) + pi / 2)))"
proof -
  obtain f0 fs where fr: "frequencies = f0 # fs"
    using assms(1) by (cases frequencies) auto
  have px: "0 < x" using assms(2) fr by (simp add: x_def)
  have py: "0 < y" using assms(2) fr by (auto simp: y_def)
  have pz: "0 < z" using assms(2) fr by (auto simp: z_def)
  have pm: "0 < m" using px py pz by (simp add: m_def)
  have ex: "js_or (Some f0) 440 = x" using px fr by (simp add: js_or_def x_def)
  have f0: "f0 = x" "0 < f0" using px fr by (simp_all add: x_def)
  have ey: "js_or (js_nth frequencies 1) (js_or (Some (f0 * 1.5)) 660) = y"
  proof (cases "1 < length frequencies")
    case True
    then have "y = frequencies ! 1" by (simp add: y_def)
    with py True show ?thesis by (simp add: js_or_def js_nth_def)
  next
    case False
    then have "y = f0 * 1.5" using fr by (simp add: y_def)
    with py False show ?thesis by (simp add: js_or_def js_nth_def)
  qed
  have ez: "js_or (js_nth frequencies 2) (js_or (Some (f0 * 2)) 880) = z"
  proof (cases "2 < length frequencies")
    case True
    then have "z = frequencies ! 2" by (simp add: z_def)
    with pz True show ?thesis by (simp add: js_or_def js_nth_def)
  next
    case False
    then have "z = f0 * 2" using fr by (simp add: z_def)
    with pz False show ?thesis by (simp add: js_or_def js_nth_def)
  qed
  let ?c = "\<lparr>cv_points =
                   map (\<lambda>i. (5 * sin (x / m * (real i / 2000 * pi * tRange)),
                             5 * sin (y / m * (real i / 2000 * pi * tRange) + pi / 4),
                             5 * sin (z / m * (real i / 2000 * pi * tRange) + pi / 2)))
                       [0..<2000],
                 cv_frequencies = (x, y, z),
                 cv_ratios = (x / m, y / m, z / m)\<rparr>"
  have c: "createCurve tRange frequencies = Some ?c"
    unfolding createCurve_def fr list.case Let_def
    using ex ey ez by (simp add: fr m_def)
  have "min (x / m) (min (y / m) (z / m)) = min x (min y z) / m"
    using pm by (simp only: min_divide_distrib_right [of _ _ m] less_imp_le if_True)
  also have "min x (min y z) = m" by (simp only: m_def)
  also have "m / m = 1" using pm by simp
  finally have r: "min (x / m) (min (y / m) (z / m)) = 1" .
  from c r show ?thesis by simp
qed


text \<open>The single frequency 440 with \<open>tRange\<close> 4: the ratios are 1, 3/2 and 2.\<close>

theorem createCurve_points_witness:
  "\<exists>c. createCurve 4 [440] = Some c \<and> cv_ratios c = (1, 3 / 2, 2)
       \<and> length (cv_points c) = 2000
       \<and> cv_points c ! 0 = (0, 5 * sin (pi / 4), 5)"
proof -
  from createCurve_points [of "[440]" 4] obtain c where
    c: "createCurve 4 [440] = Some c" "cv_ratios c = (1, 3 / 2, 2)"
      "length (cv_points c) = 2000"
      "\<forall>i<2000. cv_points c ! i =
                 (5 * sin (440 / 440 * (real i / 2000 * pi * 4)),
                  5 * sin (660 / 440 * (real i / 2000 * pi * 4) + pi / 4),
                  5 * sin (880 / 440 * (real i / 2000 * pi * 4) + pi / 2))"
    by auto
  from c(4) have "cv_points c ! 0 = (0, 5 * sin (pi / 4), 5)"
    by simp
  with c(1,2,3) show ?thesis by blast
qed

end
